theory Spec2Isabelle
  imports Main "HOL-Library.Word"
begin

text \<open>
  A WhatsApp Web sender: \<open>waSender\<close> drives a browser through Playwright to send one
  message per recipient (\<open>sendBatch\<close>) or to run a monitor in the background
  (\<open>startMonitor\<close>), and \<open>server\<close> exposes both over HTTP.

  The model follows the source function by function. The browser is a parameter (a record
  of driver operations on an abstract world); every awaited call returns a value or an
  error; the program's own variables are fields of a state that is passed along, together
  with a trace of the driver calls and callbacks made. An await of the monitor's loop is a
  point where a stop request may have been served in between. A wait without timeout may
  never end, which is the result \<open>None\<close>.
\<close>

section \<open>JavaScript values\<close>

text \<open>
  A JavaScript string is a sequence of UTF-16 code units. Recipient phones and messages
  arrive from a JSON body, so they may hold any code units, lone surrogates included.
  Selectors, URLs, attribute values and error texts are ASCII and are kept as \<open>string\<close>.
\<close>

type_synonym jsstring = "16 word list"

text \<open>A thrown \<open>Error\<close> object: its \<open>name\<close> and its \<open>message\<close>.\<close>

datatype exn = Exn (exn_name: string) (exn_message: string)

text \<open>
  \<open>e.message || String(e)\<close>: the message when it is not empty; otherwise
  \<open>Error.prototype.toString\<close>, which for an empty message is the name.
\<close>

definition errorText :: "exn \<Rightarrow> string" where
  "errorText e = (if exn_message e \<noteq> [] then exn_message e else exn_name e)"

definition URIError :: exn where
  "URIError = Exn ''URIError'' ''URI malformed''"

definition TimeoutError :: exn where
  "TimeoutError = Exn ''TimeoutError'' ''Timeout exceeded''"

section \<open>The deep link (buildWhatsAppUrl)\<close>

text \<open>
  \<open>encodeURIComponent\<close> is the language's built-in; it is written here after the
  ECMAScript algorithm \<open>Encode\<close>: a code unit of the unescaped set (letters, digits and
  \<open>- _ . ! ~ * ' ( )\<close>) is copied; any other is read as a code point (a surrogate pair is
  one code point, an unpaired surrogate throws \<open>URIError\<close>), encoded in UTF-8, and every
  octet written as \<open>%XX\<close> in upper-case hexadecimal.
\<close>

definition uriUnescaped :: "nat \<Rightarrow> bool" where
  "uriUnescaped c \<longleftrightarrow>
     (65 \<le> c \<and> c \<le> 90) \<or> (97 \<le> c \<and> c \<le> 122) \<or> (48 \<le> c \<and> c \<le> 57) \<or>
     c \<in> set [45, 95, 46, 33, 126, 42, 39, 40, 41]"

definition utf8 :: "nat \<Rightarrow> nat list" where
  "utf8 cp =
     (if cp < 0x80 then [cp]
      else if cp < 0x800 then [0xC0 + cp div 0x40, 0x80 + cp mod 0x40]
      else if cp < 0x10000 then
        [0xE0 + cp div 0x1000, 0x80 + (cp div 0x40) mod 0x40, 0x80 + cp mod 0x40]
      else
        [0xF0 + cp div 0x40000, 0x80 + (cp div 0x1000) mod 0x40,
         0x80 + (cp div 0x40) mod 0x40, 0x80 + cp mod 0x40])"

definition hexDigit :: "nat \<Rightarrow> char" where
  "hexDigit n = ''0123456789ABCDEF'' ! n"

definition percentOctet :: "nat \<Rightarrow> string" where
  "percentOctet b = [CHR ''%'', hexDigit (b div 16), hexDigit (b mod 16)]"

fun Encode :: "nat list \<Rightarrow> exn + string" where
  "Encode [] = Inr []"
| "Encode (c # cs) =
     (if uriUnescaped c then map_sum id ((#) (char_of c)) (Encode cs)
      else if c < 0xD800 \<or> 0xDFFF < c then
        map_sum id ((@) (concat (map percentOctet (utf8 c)))) (Encode cs)
      else if 0xDC00 \<le> c then Inl URIError
      else (case cs of
              [] \<Rightarrow> Inl URIError
            | d # ds \<Rightarrow>
                if d < 0xDC00 \<or> 0xDFFF < d then Inl URIError
                else map_sum id
                       ((@) (concat (map percentOctet
                          (utf8 ((c - 0xD800) * 0x400 + (d - 0xDC00) + 0x10000)))))
                       (Encode ds)))"

definition encodeURIComponent :: "jsstring \<Rightarrow> exn + string" where
  "encodeURIComponent s = Encode (map unat s)"

text \<open>
  \<^verbatim>\<open>const text = encodeURIComponent(message);
  return `https://web.whatsapp.com/send?phone=${encodeURIComponent(phone)}&text=${text}`;\<close>
\<close>

definition buildWhatsAppUrl :: "jsstring \<Rightarrow> jsstring \<Rightarrow> exn + string" where
  "buildWhatsAppUrl phone_arg message_arg =
     (case encodeURIComponent message_arg of
        Inl e \<Rightarrow> Inl e
      | Inr text \<Rightarrow>
          (case encodeURIComponent phone_arg of
             Inl e \<Rightarrow> Inl e
           | Inr p \<Rightarrow> Inr (''https://web.whatsapp.com/send?phone='' @ p @ ''&text='' @ text)))"

subsection \<open>Percent-encoding, as the specification words it\<close>

text \<open>
  The specification's side of the deep link. A string is read as Unicode code points
  (\<open>codePoints\<close>, as string iteration does) and is well formed when no code point is a
  surrogate (\<open>String.prototype.isWellFormed\<close>).
\<close>

fun codePoints :: "nat list \<Rightarrow> nat list" where
  "codePoints [] = []"
| "codePoints [c] = [c]"
| "codePoints (c # d # ds) =
     (if 0xD800 \<le> c \<and> c < 0xDC00 \<and> 0xDC00 \<le> d \<and> d \<le> 0xDFFF
      then ((c - 0xD800) * 0x400 + (d - 0xDC00) + 0x10000) # codePoints ds
      else c # codePoints (d # ds))"

definition isWellFormed :: "jsstring \<Rightarrow> bool" where
  "isWellFormed s = list_all (\<lambda>cp. cp < 0xD800 \<or> 0xDFFF < cp) (codePoints (map unat s))"

text \<open>
  What a percent-encoded parameter stands for is said by reading it back, with nothing of
  the encoder. \<open>percentDecode\<close> takes an unreserved character (a letter, a digit or a
  mark \<open>- _ . ! ~ * ' ( )\<close>) as its own octet and \<open>%XX\<close>, two upper-case hexadecimal
  digits, as the octet \<open>XX\<close>; \<open>utf8Decode\<close> reads the octets as UTF-8. Both are strict,
  so that a text has one percent-encoded form only: an unreserved character is never
  escaped, any other character is never literal, and the UTF-8 is in shortest form,
  without surrogates and up to \<open>U+10FFFF\<close>.
\<close>

definition unreserved :: string where
  "unreserved =
     ''ABCDEFGHIJKLMNOPQRSTUVWXYZabcdefghijklmnopqrstuvwxyz0123456789-_.!~*()'' @ [CHR 0x27]"

definition hexValue :: "char \<Rightarrow> nat option" where
  "hexValue c =
     (if c \<in> set ''0123456789'' then Some (of_char c - 48)
      else if c \<in> set ''ABCDEF'' then Some (of_char c - 55)
      else None)"

fun percentDecode :: "string \<Rightarrow> nat list option" where
  "percentDecode [] = Some []"
| "percentDecode (c # cs) =
     (if c = CHR ''%'' then
        (case cs of
           h # l # rest \<Rightarrow>
             (case (hexValue h, hexValue l) of
                (Some a, Some b) \<Rightarrow>
                  if char_of (16 * a + b) \<in> set unreserved then None
                  else map_option ((#) (16 * a + b)) (percentDecode rest)
              | _ \<Rightarrow> None)
         | _ \<Rightarrow> None)
      else if c \<in> set unreserved then map_option ((#) (of_char c)) (percentDecode cs)
      else None)"

definition continuation :: "nat \<Rightarrow> bool" where
  "continuation b \<longleftrightarrow> 0x80 \<le> b \<and> b < 0xC0"

fun utf8Decode :: "nat list \<Rightarrow> nat list option" where
  "utf8Decode [] = Some []"
| "utf8Decode (b # bs) =
     (if b < 0x80 then map_option ((#) b) (utf8Decode bs)
      else if 0xC0 \<le> b \<and> b < 0xE0 then
        (case bs of
           c1 # rest \<Rightarrow>
             (let cp = (b - 0xC0) * 0x40 + (c1 - 0x80)
              in if continuation c1 \<and> 0x80 \<le> cp
                 then map_option ((#) cp) (utf8Decode rest) else None)
         | _ \<Rightarrow> None)
      else if 0xE0 \<le> b \<and> b < 0xF0 then
        (case bs of
           c1 # c2 # rest \<Rightarrow>
             (let cp = (b - 0xE0) * 0x1000 + (c1 - 0x80) * 0x40 + (c2 - 0x80)
              in if continuation c1 \<and> continuation c2 \<and> 0x800 \<le> cp \<and>
                    (cp < 0xD800 \<or> 0xDFFF < cp)
                 then map_option ((#) cp) (utf8Decode rest) else None)
         | _ \<Rightarrow> None)
      else if 0xF0 \<le> b \<and> b < 0xF8 then
        (case bs of
           c1 # c2 # c3 # rest \<Rightarrow>
             (let cp = (b - 0xF0) * 0x40000 + (c1 - 0x80) * 0x1000 + (c2 - 0x80) * 0x40 +
                       (c3 - 0x80)
              in if continuation c1 \<and> continuation c2 \<and> continuation c3 \<and>
                    0x10000 \<le> cp \<and> cp \<le> 0x10FFFF
                 then map_option ((#) cp) (utf8Decode rest) else None)
         | _ \<Rightarrow> None)
      else None)"

definition percentDecoded :: "string \<Rightarrow> nat list option" where
  "percentDecoded p = (case percentDecode p of None \<Rightarrow> None | Some bs \<Rightarrow> utf8Decode bs)"

text \<open>
  The output of \<open>Encode\<close> on a well-formed string in closed form, for the proofs: a code
  point is copied or written as the \<open>%XX\<close> octets of its UTF-8 form.
\<close>

definition percentEncoded :: "jsstring \<Rightarrow> string" where
  "percentEncoded s =
     concat (map (\<lambda>cp. if uriUnescaped cp then [char_of cp]
                         else concat (map percentOctet (utf8 cp)))
              (codePoints (map unat s)))"

text \<open>The characters that delimit the parts of a URL's query.\<close>

definition queryDelimiters :: "char set" where
  "queryDelimiters = set ''&=?#/:+ ''"

text \<open>An ASCII literal as a JavaScript string.\<close>

definition js :: "string \<Rightarrow> jsstring" where
  "js s = map (\<lambda>c. of_nat (of_char c)) s"

section \<open>The page's document and the in-page click ladder\<close>

text \<open>
  An element as the in-page script sees it: its tag (lower case), its attributes, whether
  \<open>offsetParent\<close> is not \<open>null\<close> (the script's test of visibility), and its children in
  document order.
\<close>

datatype element =
  Element (tagName: string) (attributes: "(string \<times> string) list")
          (hasOffsetParent: bool) (childNodes: "element list")

definition getAttribute :: "element \<Rightarrow> string \<Rightarrow> string option" where
  "getAttribute e n = map_of (attributes e) n"

text \<open>
  The CSS selectors of the source: a compound selector is an optional tag and attribute
  tests (\<open>[a]\<close>, \<open>[a="v"]\<close>); \<open>Descendant a b\<close> is \<open>a b\<close>.
\<close>

datatype attr_test = HasAttr string | AttrEq string string

datatype compound = Compound (sel_tag: "string option") (sel_attrs: "attr_test list")

datatype selector = Sel compound | Descendant compound compound

fun attrHolds :: "element \<Rightarrow> attr_test \<Rightarrow> bool" where
  "attrHolds e (HasAttr n) = (getAttribute e n \<noteq> None)"
| "attrHolds e (AttrEq n v) = (getAttribute e n = Some v)"

definition matchesCompound :: "compound \<Rightarrow> element \<Rightarrow> bool" where
  "matchesCompound c e \<longleftrightarrow>
     (case sel_tag c of None \<Rightarrow> True | Some t \<Rightarrow> tagName e = t) \<and>
     list_all (attrHolds e) (sel_attrs c)"

text \<open>A node is an element with its ancestors, the nearest first.\<close>

type_synonym node = "element \<times> element list"

fun matches :: "selector \<Rightarrow> node \<Rightarrow> bool" where
  "matches (Sel c) (e, anc) = matchesCompound c e"
| "matches (Descendant a b) (e, anc) = (matchesCompound b e \<and> list_ex (matchesCompound a) anc)"

text \<open>The nodes of a tree in document order (pre-order).\<close>

fun nodes :: "element list \<Rightarrow> element \<Rightarrow> node list" where
  "nodes anc (Element t a v cs) =
     (Element t a v cs, anc) # concat (map (nodes (Element t a v cs # anc)) cs)"

definition querySelectorAll :: "element \<Rightarrow> selector \<Rightarrow> node list" where
  "querySelectorAll doc sel = filter (matches sel) (nodes [] doc)"

definition querySelector :: "element \<Rightarrow> selector \<Rightarrow> node option" where
  "querySelector doc sel = (case querySelectorAll doc sel of [] \<Rightarrow> None | n # _ \<Rightarrow> Some n)"

text \<open>\<open>el.closest(c)\<close>: the element itself or its nearest ancestor that matches.\<close>

definition closest :: "compound \<Rightarrow> node \<Rightarrow> element option" where
  "closest c n = List.find (matchesCompound c) (fst n # snd n)"

text \<open>
  \<open>for (const x of xs) { ... if (cond) { el.click(); return true; } }\<close>: the first
  element of the list for which the body clicks.
\<close>

fun firstClick :: "('a \<Rightarrow> element option) \<Rightarrow> 'a list \<Rightarrow> element option" where
  "firstClick f [] = None"
| "firstClick f (x # xs) = (case f x of Some el \<Rightarrow> Some el | None \<Rightarrow> firstClick f xs)"

definition toLowerCase :: "string \<Rightarrow> string" where
  "toLowerCase s =
     map (\<lambda>c. if (65::nat) \<le> of_char c \<and> of_char c \<le> (90::nat)
              then char_of (of_char c + (32::nat)) else c) s"

fun str_includes :: "string \<Rightarrow> string \<Rightarrow> bool" where
  "str_includes [] n = (n = [])"
| "str_includes (h # hs) n = (take (length n) (h # hs) = n \<or> str_includes hs n)"

definition button :: compound where
  "button = Compound (Some ''button'') []"

definition directSelectors :: "selector list" where
  "directSelectors =
     [Sel (Compound (Some ''button'') [AttrEq ''aria-label'' ''Send'']),
      Sel (Compound (Some ''button'') [AttrEq ''data-testid'' ''send'']),
      Sel (Compound (Some ''button'') [AttrEq ''data-tab'' ''11'']),
      Sel (Compound None [AttrEq ''data-testid'' ''send''])]"

definition sendIcon :: selector where
  "sendIcon = Sel (Compound (Some ''span'') [AttrEq ''data-icon'' ''send''])"

text \<open>The three rungs of the script passed to \<open>page.evaluate\<close> in \<open>trySendClick\<close>.\<close>

definition directRung :: "element \<Rightarrow> element option" where
  "directRung doc =
     firstClick (\<lambda>sel. case querySelector doc sel of
                          None \<Rightarrow> None
                        | Some n \<Rightarrow> if hasOffsetParent (fst n) then Some (fst n) else None)
       directSelectors"

definition iconRung :: "element \<Rightarrow> element option" where
  "iconRung doc =
     firstClick (\<lambda>span. case closest button span of
                           None \<Rightarrow> None
                         | Some btn \<Rightarrow> if hasOffsetParent btn then Some btn else None)
       (querySelectorAll doc sendIcon)"

definition labelRung :: "element \<Rightarrow> element option" where
  "labelRung doc =
     firstClick (\<lambda>n. let label = toLowerCase (case getAttribute (fst n) ''aria-label'' of
                                                 None \<Rightarrow> [] | Some v \<Rightarrow> v)
                      in if str_includes label ''send'' \<and> hasOffsetParent (fst n)
                         then Some (fst n) else None)
       (querySelectorAll doc (Sel button))"

text \<open>The script: the element it clicks, or \<open>None\<close> where it returns \<open>false\<close>.\<close>

definition sendClickScript :: "element \<Rightarrow> element option" where
  "sendClickScript doc =
     (case directRung doc of
        Some el \<Rightarrow> Some el
      | None \<Rightarrow> (case iconRung doc of
                   Some btn \<Rightarrow> Some btn
                 | None \<Rightarrow> labelRung doc))"

section \<open>The automation driver and the program's state\<close>

type_synonym page = nat
type_synonym browser_context = nat

text \<open>What waiting for a selector meets: the element, a failure, or nothing ever.\<close>

datatype wait_outcome = Appeared | Failed exn | Never

text \<open>
  The browser, the file system and the clock are not code of this repository: they are a
  parameter. A driver acts on a world \<open>'w\<close>; every call that the source awaits may throw.
  \<open>d_evaluate\<close> is the document an evaluated script runs against, \<open>d_elementClick\<close> and
  \<open>d_setZoom\<close> what the script's \<open>el.click()\<close> and zoom assignment do to the world.
  \<open>d_stopRequested\<close> tells whether the handle's \<open>stop()\<close> was called while the monitor's
  loop was suspended in the await that led to this world.
\<close>

record 'w driver =
  d_mkdir :: "string \<Rightarrow> 'w \<Rightarrow> (exn + unit) \<times> 'w"
  d_launchPersistentContext :: "string \<Rightarrow> 'w \<Rightarrow> (exn + browser_context) \<times> 'w"
  d_newPage :: "browser_context \<Rightarrow> 'w \<Rightarrow> (exn + page) \<times> 'w"
  d_goto :: "page \<Rightarrow> string \<Rightarrow> 'w \<Rightarrow> (exn + unit) \<times> 'w"
  d_waitForSelector :: "page \<Rightarrow> selector \<Rightarrow> 'w \<Rightarrow> wait_outcome \<times> 'w"
  d_evaluate :: "page \<Rightarrow> 'w \<Rightarrow> (exn + element) \<times> 'w"
  d_elementClick :: "page \<Rightarrow> element \<Rightarrow> 'w \<Rightarrow> 'w"
  d_setZoom :: "page \<Rightarrow> 'w \<Rightarrow> 'w"
  d_isVisible :: "page \<Rightarrow> selector \<Rightarrow> 'w \<Rightarrow> (exn + bool) \<times> 'w"
  d_click :: "page \<Rightarrow> selector \<Rightarrow> 'w \<Rightarrow> (exn + unit) \<times> 'w"
  d_press :: "page \<Rightarrow> string \<Rightarrow> 'w \<Rightarrow> (exn + unit) \<times> 'w"
  d_screenshot :: "page \<Rightarrow> 'w \<Rightarrow> (exn + 8 word list) \<times> 'w"
  d_isClosed :: "page \<Rightarrow> 'w \<Rightarrow> bool"
  d_close :: "browser_context \<Rightarrow> 'w \<Rightarrow> (exn + unit) \<times> 'w"
  d_sleep :: "nat \<Rightarrow> 'w \<Rightarrow> 'w"
  d_now :: "'w \<Rightarrow> int"
  d_stopRequested :: "'w \<Rightarrow> bool"

record recipient =
  phone :: jsstring
  message :: jsstring
  name :: "jsstring option"

text \<open>The argument of \<open>onProgress\<close>: \<open>{ index, row, ok, error }\<close>.\<close>

record progress =
  index :: nat
  row :: recipient
  ok :: bool
  error :: "string option"

text \<open>
  The arguments of \<open>onEvent\<close>:
  \<open>{ clicked: true, t, clicks, index, row, ok: true }\<close>,
  \<open>{ clicked: false, t, clicks, index, row, ok: false, error }\<close>,
  \<open>{ done: true, clicks }\<close> and, in watch mode, \<open>{ clicked: true, t, clicks }\<close>.
\<close>

datatype monitor_event =
    RowSent int nat nat recipient
  | RowFailed int nat nat recipient string
  | AllDone nat
  | WatchClicked int nat

text \<open>The trace of what the program did to the outside: driver calls and callbacks.\<close>

datatype call =
    Mkdir string
  | Launch string
  | NewPage browser_context
  | Goto page string
  | WaitForSelector page selector nat
  | Evaluate page
  | ElementClick page element
  | SetZoom page
  | IsVisible page selector
  | Click page selector
  | Press page string
  | Screenshot page
  | Close browser_context
  | Sleep nat
  | OnProgress progress
  | OnEvent monitor_event

text \<open>
  \<open>stats.current\<close> is \<open>`${i + 1}/${rows.length} - ${row.phone}`\<close>, \<open>'Done'\<close> or
  \<open>'Watching for send button...'\<close>.
\<close>

datatype status = Progress nat nat jsstring | Done | Watching

record stats =
  running :: bool
  clicks :: nat
  lastClick :: "int option"
  current :: "status option"

text \<open>The variables one call of \<open>startMonitor\<close> closes over.\<close>

record monitor =
  stats :: stats
  stopped :: bool
  m_context :: browser_context
  m_page :: page

text \<open>The loop that \<open>startMonitor\<close> starts and does not await.\<close>

datatype task = CsvTask "recipient list" nat bool | WatchTask bool

text \<open>
  The state: the world, the trace, the module variable \<open>lastPage\<close> of the sender, the
  closures of the monitors started so far (a monitor handle is a reference into them), the
  loops started and not awaited, and the variable \<open>monitorHandle\<close> of the server.
\<close>

record 'w sys =
  world :: 'w
  calls :: "call list"
  lastPage :: "page option"
  monitors :: "nat \<Rightarrow> monitor"
  monitorCount :: nat
  spawned :: "(nat \<times> task) list"
  monitorHandle :: "nat option"

definition initialMonitor :: monitor where
  "initialMonitor =
     \<lparr>stats = \<lparr>running = False, clicks = 0, lastClick = None, current = None\<rparr>,
      stopped = False, m_context = 0, m_page = 0\<rparr>"

text \<open>The state when the modules are loaded: \<open>lastPage = null\<close>, \<open>monitorHandle = null\<close>.\<close>

definition initialSys :: "'w \<Rightarrow> 'w sys" where
  "initialSys w =
     \<lparr>world = w, calls = [], lastPage = None, monitors = (\<lambda>_. initialMonitor),
      monitorCount = 0, spawned = [], monitorHandle = None\<rparr>"

text \<open>A driver call, recorded in the trace.\<close>

definition perform :: "('w \<Rightarrow> 'a \<times> 'w) \<Rightarrow> call \<Rightarrow> 'w sys \<Rightarrow> 'a \<times> 'w sys" where
  "perform f c s = (case f (world s) of (r, w) \<Rightarrow> (r, s\<lparr>world := w, calls := calls s @ [c]\<rparr>))"

definition effect :: "('w \<Rightarrow> 'w) \<Rightarrow> call \<Rightarrow> 'w sys \<Rightarrow> 'w sys" where
  "effect f c s = s\<lparr>world := f (world s), calls := calls s @ [c]\<rparr>"

text \<open>\<open>const x = await m; k(x)\<close>: a rejection of \<open>m\<close> is thrown on.\<close>

definition await ::
  "('s \<Rightarrow> (exn + 'a) \<times> 's) \<Rightarrow> ('a \<Rightarrow> 's \<Rightarrow> (exn + 'b) \<times> 's) \<Rightarrow> 's \<Rightarrow> (exn + 'b) \<times> 's" where
  "await m k s = (case m s of (Inl e, s1) \<Rightarrow> (Inl e, s1) | (Inr x, s1) \<Rightarrow> k x s1)"

section \<open>The sender (waSender)\<close>

definition BATCH_SESSION_DIR :: string where
  "BATCH_SESSION_DIR = ''.wa-session''"

definition MONITOR_SESSION_DIR :: string where
  "MONITOR_SESSION_DIR = ''.wa-session-monitor''"

definition sleep :: "'w driver \<Rightarrow> nat \<Rightarrow> 'w sys \<Rightarrow> 'w sys" where
  "sleep env ms = effect (d_sleep env ms) (Sleep ms)"

definition getContext :: "'w driver \<Rightarrow> string \<Rightarrow> 'w sys \<Rightarrow> (exn + browser_context) \<times> 'w sys" where
  "getContext env sessionDir =
     await (perform (d_mkdir env sessionDir) (Mkdir sessionDir))
       (\<lambda>_. perform (d_launchPersistentContext env sessionDir) (Launch sessionDir))"

definition newPage :: "'w driver \<Rightarrow> browser_context \<Rightarrow> 'w sys \<Rightarrow> (exn + page) \<times> 'w sys" where
  "newPage env ctx = perform (d_newPage env ctx) (NewPage ctx)"

definition closeContext :: "'w driver \<Rightarrow> browser_context \<Rightarrow> 'w sys \<Rightarrow> (exn + unit) \<times> 'w sys" where
  "closeContext env ctx = perform (d_close env ctx) (Close ctx)"

definition goto :: "'w driver \<Rightarrow> page \<Rightarrow> string \<Rightarrow> 'w sys \<Rightarrow> (exn + unit) \<times> 'w sys" where
  "goto env p url = perform (d_goto env p url) (Goto p url)"

definition press :: "'w driver \<Rightarrow> page \<Rightarrow> string \<Rightarrow> 'w sys \<Rightarrow> (exn + unit) \<times> 'w sys" where
  "press env p key = perform (d_press env p key) (Press p key)"

text \<open>\<open>div[contenteditable="true"][data-tab]\<close>: the message input.\<close>

definition composer :: selector where
  "composer = Sel (Compound (Some ''div'') [AttrEq ''contenteditable'' ''true'', HasAttr ''data-tab''])"

text \<open>
  \<open>page.waitForSelector(sel, { timeout })\<close> with a positive timeout: an element that never
  appears is a \<open>TimeoutError\<close> when the time is up.
\<close>

definition waitForSelector ::
  "'w driver \<Rightarrow> page \<Rightarrow> selector \<Rightarrow> nat \<Rightarrow> 'w sys \<Rightarrow> (exn + unit) \<times> 'w sys" where
  "waitForSelector env p sel timeout s =
     (case perform (d_waitForSelector env p sel) (WaitForSelector p sel timeout) s of
        (Appeared, s1) \<Rightarrow> (Inr (), s1)
      | (Failed e, s1) \<Rightarrow> (Inl e, s1)
      | (Never, s1) \<Rightarrow> (Inl TimeoutError, s1))"

text \<open>
  \<open>page.waitForSelector(sel, { timeout: 0 })\<close>: the timeout is disabled, and the promise
  of an element that never appears never settles (\<open>None\<close>).
\<close>

definition waitForSelectorNoTimeout ::
  "'w driver \<Rightarrow> page \<Rightarrow> selector \<Rightarrow> 'w sys \<Rightarrow> ((exn + unit) \<times> 'w sys) option" where
  "waitForSelectorNoTimeout env p sel s =
     (case perform (d_waitForSelector env p sel) (WaitForSelector p sel 0) s of
        (Appeared, s1) \<Rightarrow> Some (Inr (), s1)
      | (Failed e, s1) \<Rightarrow> Some (Inl e, s1)
      | (Never, s1) \<Rightarrow> None)"

definition waitForReady :: "'w driver \<Rightarrow> page \<Rightarrow> 'w sys \<Rightarrow> ((exn + unit) \<times> 'w sys) option" where
  "waitForReady env p s =
     (case goto env p ''https://web.whatsapp.com/'' s of
        (Inl e, s1) \<Rightarrow> Some (Inl e, s1)
      | (Inr _, s1) \<Rightarrow>
          (case waitForSelectorNoTimeout env p composer s1 of
             None \<Rightarrow> None
           | Some (Inl e, s2) \<Rightarrow> Some (Inl e, s2)
           | Some (Inr _, s2) \<Rightarrow>
               Some (case perform (d_evaluate env p) (Evaluate p) s2 of
                       (Inl e, s3) \<Rightarrow> (Inl e, s3)
                     | (Inr doc, s3) \<Rightarrow> (Inr (), effect (d_setZoom env p) (SetZoom p) s3))))"

definition playwrightSelectors :: "selector list" where
  "playwrightSelectors =
     [Sel (Compound (Some ''button'') [AttrEq ''aria-label'' ''Send'']),
      Sel (Compound (Some ''button'') [AttrEq ''data-testid'' ''send'']),
      sendIcon,
      Descendant button (Compound (Some ''span'') [AttrEq ''data-icon'' ''send''])]"

text \<open>
  Strategy 2 of \<open>trySendClick\<close>: for each selector, \<open>isVisible().catch(() => false)\<close>,
  then \<open>click()\<close>; an error of the click is caught and the next selector tried.
\<close>

fun locatorStrategy :: "'w driver \<Rightarrow> page \<Rightarrow> selector list \<Rightarrow> 'w sys \<Rightarrow> bool \<times> 'w sys" where
  "locatorStrategy env p [] s = (False, s)"
| "locatorStrategy env p (sel # sels) s =
     (case perform (d_isVisible env p sel) (IsVisible p sel) s of
        (Inr True, s1) \<Rightarrow>
          (case perform (d_click env p sel) (Click p sel) s1 of
             (Inr _, s2) \<Rightarrow> (True, s2)
           | (Inl _, s2) \<Rightarrow> locatorStrategy env p sels s2)
      | (_, s1) \<Rightarrow> locatorStrategy env p sels s1)"

definition trySendClick :: "'w driver \<Rightarrow> page \<Rightarrow> 'w sys \<Rightarrow> (exn + bool) \<times> 'w sys" where
  "trySendClick env p s =
     (case perform (d_evaluate env p) (Evaluate p) s of
        (Inl e, s1) \<Rightarrow> (Inl e, s1)
      | (Inr doc, s1) \<Rightarrow>
          (case sendClickScript doc of
             Some el \<Rightarrow> (Inr True, effect (d_elementClick env p el) (ElementClick p el) s1)
           | None \<Rightarrow> (case locatorStrategy env p playwrightSelectors s1 of
                        (clicked, s2) \<Rightarrow> (Inr clicked, s2))))"

text \<open>
  \<open>for (let attempt = 0; attempt < 5; attempt++) { const ok = await trySendClick(page);
  if (ok) return; await sleep(1000); }\<close>: \<open>True\<close> when an attempt clicked, \<open>False\<close> when
  the attempts are used up.
\<close>

fun sendAttempts :: "'w driver \<Rightarrow> page \<Rightarrow> nat \<Rightarrow> 'w sys \<Rightarrow> (exn + bool) \<times> 'w sys" where
  "sendAttempts env p 0 s = (Inr False, s)"
| "sendAttempts env p (Suc n) s =
     (case trySendClick env p s of
        (Inl e, s1) \<Rightarrow> (Inl e, s1)
      | (Inr True, s1) \<Rightarrow> (Inr True, s1)
      | (Inr False, s1) \<Rightarrow> sendAttempts env p n (sleep env 1000 s1))"

definition sendSingle :: "'w driver \<Rightarrow> page \<Rightarrow> recipient \<Rightarrow> 'w sys \<Rightarrow> (exn + unit) \<times> 'w sys" where
  "sendSingle env p r s =
     (case buildWhatsAppUrl (phone r) (message r) of
        Inl e \<Rightarrow> (Inl e, s)
      | Inr url \<Rightarrow>
          await (goto env p url)
            (\<lambda>_. await (waitForSelector env p composer 60000)
               (\<lambda>_ s2. case sendAttempts env p 5 (sleep env 2000 s2) of
                          (Inl e, s3) \<Rightarrow> (Inl e, s3)
                        | (Inr True, s3) \<Rightarrow> (Inr (), s3)
                        | (Inr False, s3) \<Rightarrow>
                            await (press env p ''Enter'')
                              (\<lambda>_ s4. (Inr (), sleep env 1200 s4)) s3)) s)"

text \<open>
  \<open>onProgress?.(evt)\<close>: the callback, where one was given, is called with the event. A
  callback is an observer: it is taken to return normally, as the ones the server passes
  do (they update a job record and write to the log).
\<close>

definition onProgress :: "bool \<Rightarrow> progress \<Rightarrow> 'w sys \<Rightarrow> 'w sys" where
  "onProgress given evt s = (if given then s\<lparr>calls := calls s @ [OnProgress evt]\<rparr> else s)"

fun batchLoop ::
  "'w driver \<Rightarrow> page \<Rightarrow> nat \<Rightarrow> bool \<Rightarrow> nat \<Rightarrow> recipient list \<Rightarrow> 'w sys \<Rightarrow> 'w sys" where
  "batchLoop env p delayMs given i [] s = s"
| "batchLoop env p delayMs given i (r # rest) s =
     (case sendSingle env p r s of
        (Inr _, s1) \<Rightarrow>
          batchLoop env p delayMs given (Suc i) rest
            (sleep env delayMs
               (onProgress given \<lparr>index = i, row = r, ok = True, error = None\<rparr> s1))
      | (Inl e, s1) \<Rightarrow>
          batchLoop env p delayMs given (Suc i) rest
            (sleep env delayMs
               (onProgress given
                  \<lparr>index = i, row = r, ok = False, error = Some (errorText e)\<rparr> s1)))"

text \<open>\<open>try { ... } finally { await context.close(); }\<close>\<close>

definition finallyClose ::
  "'w driver \<Rightarrow> browser_context \<Rightarrow> (exn + unit) \<times> 'w sys \<Rightarrow> (exn + unit) \<times> 'w sys" where
  "finallyClose env ctx r =
     (case closeContext env ctx (snd r) of
        (Inl e, s1) \<Rightarrow> (Inl e, s1)
      | (Inr _, s1) \<Rightarrow> (fst r, s1))"

text \<open>\<open>delayMs = 4000\<close> is the default of the parameter.\<close>

definition sendBatch ::
  "'w driver \<Rightarrow> recipient list \<Rightarrow> bool \<Rightarrow> nat option \<Rightarrow> 'w sys \<Rightarrow> ((exn + unit) \<times> 'w sys) option" where
  "sendBatch env rows given delayMs s =
     (case getContext env BATCH_SESSION_DIR s of
        (Inl e, s1) \<Rightarrow> Some (Inl e, s1)
      | (Inr ctx, s1) \<Rightarrow>
          (case newPage env ctx s1 of
             (Inl e, s2) \<Rightarrow> Some (Inl e, s2)
           | (Inr p, s2) \<Rightarrow>
               (case waitForReady env p s2 of
                  None \<Rightarrow> None
                | Some (Inl e, s3) \<Rightarrow> Some (finallyClose env ctx (Inl e, s3))
                | Some (Inr _, s3) \<Rightarrow>
                    Some (finallyClose env ctx
                      (Inr (), batchLoop env p (case delayMs of None \<Rightarrow> 4000 | Some d \<Rightarrow> d)
                                 given 0 rows s3)))))"

definition getScreenshot :: "'w driver \<Rightarrow> 'w sys \<Rightarrow> (exn + 8 word list option) \<times> 'w sys" where
  "getScreenshot env s =
     (case lastPage s of
        None \<Rightarrow> (Inr None, s)
      | Some p \<Rightarrow>
          if d_isClosed env p (world s) then (Inr None, s)
          else (case perform (d_screenshot env p) (Screenshot p) s of
                  (Inr png, s1) \<Rightarrow> (Inr (Some png), s1)
                | (Inl e, s1) \<Rightarrow> (Inr None, s1)))"

section \<open>Monitor mode\<close>

definition updStats :: "nat \<Rightarrow> (stats \<Rightarrow> stats) \<Rightarrow> 'w sys \<Rightarrow> 'w sys" where
  "updStats m f s = s\<lparr>monitors := (monitors s)(m := (monitors s m)\<lparr>stats := f (stats (monitors s m))\<rparr>)\<rparr>"

text \<open>
  \<open>stop: async () => { stopped = true; stats.running = false;
  try { await context.close(); } catch (_) { } }\<close>
\<close>

definition stop :: "'w driver \<Rightarrow> nat \<Rightarrow> 'w sys \<Rightarrow> 'w sys" where
  "stop env m s =
     snd (closeContext env (m_context (monitors s m))
            (s\<lparr>monitors := (monitors s)(m := (monitors s m)
                  \<lparr>stats := (stats (monitors s m))\<lparr>running := False\<rparr>, stopped := True\<rparr>)\<rparr>))"

text \<open>
  While the loop of monitor \<open>m\<close> is suspended in an await, the event loop may run the
  handler of a stop request. \<open>suspended\<close> is what the loop finds when it resumes.
  (\<open>trySendClick\<close> reads neither flag: a request that arrives inside it is seen when it
  returns.)
\<close>

definition suspended :: "'w driver \<Rightarrow> nat \<Rightarrow> 'w sys \<Rightarrow> 'w sys" where
  "suspended env m s = (if d_stopRequested env (world s) then stop env m s else s)"

text \<open>An await of the monitor's loop: the awaited call, then what happened meanwhile.\<close>

definition awaitM ::
  "'w driver \<Rightarrow> nat \<Rightarrow> ('w sys \<Rightarrow> (exn + 'a) \<times> 'w sys) \<Rightarrow>
   ('a \<Rightarrow> 'w sys \<Rightarrow> (exn + 'b) \<times> 'w sys) \<Rightarrow> 'w sys \<Rightarrow> (exn + 'b) \<times> 'w sys" where
  "awaitM env m f k s =
     (case f s of
        (Inl e, s1) \<Rightarrow> (Inl e, suspended env m s1)
      | (Inr x, s1) \<Rightarrow> k x (suspended env m s1))"

text \<open>\<open>onEvent?.(evt)\<close>\<close>

definition onEvent :: "bool \<Rightarrow> monitor_event \<Rightarrow> 'w sys \<Rightarrow> 'w sys" where
  "onEvent given evt s = (if given then s\<lparr>calls := calls s @ [OnEvent evt]\<rparr> else s)"

text \<open>
  \<open>let sent = false; for (let attempt = 0; attempt < 5 && !sent; attempt++) {
  sent = await trySendClick(page); if (!sent) await sleep(1000); }\<close>
\<close>

fun csvAttempts :: "'w driver \<Rightarrow> nat \<Rightarrow> page \<Rightarrow> nat \<Rightarrow> 'w sys \<Rightarrow> (exn + bool) \<times> 'w sys" where
  "csvAttempts env m p 0 s = (Inr False, s)"
| "csvAttempts env m p (Suc n) s =
     awaitM env m (trySendClick env p)
       (\<lambda>sent s1. if sent then (Inr True, s1)
                   else csvAttempts env m p n (suspended env m (sleep env 1000 s1))) s"

text \<open>The body of the \<open>try\<close> of one recipient, up to the last await; it returns \<open>sent\<close>.\<close>

definition csvSend :: "'w driver \<Rightarrow> nat \<Rightarrow> recipient \<Rightarrow> 'w sys \<Rightarrow> (exn + bool) \<times> 'w sys" where
  "csvSend env m r s =
     (let p = m_page (monitors s m) in
      case buildWhatsAppUrl (phone r) (message r) of
        Inl e \<Rightarrow> (Inl e, s)
      | Inr url \<Rightarrow>
          awaitM env m (goto env p url)
            (\<lambda>_. awaitM env m (waitForSelector env p composer 60000)
               (\<lambda>_ s2. case csvAttempts env m p 5 (suspended env m (sleep env 2500 s2)) of
                          (Inl e, s3) \<Rightarrow> (Inl e, s3)
                        | (Inr True, s3) \<Rightarrow> (Inr True, s3)
                        | (Inr False, s3) \<Rightarrow>
                            awaitM env m (press env p ''Enter'') (\<lambda>_ s4. (Inr False, s4)) s3)) s)"

text \<open>One recipient: \<open>stats.current\<close>, the \<open>try\<close> and its \<open>catch\<close>.\<close>

definition csvIteration ::
  "'w driver \<Rightarrow> nat \<Rightarrow> bool \<Rightarrow> nat \<Rightarrow> nat \<Rightarrow> recipient \<Rightarrow> 'w sys \<Rightarrow> 'w sys" where
  "csvIteration env m given len i r s =
     (case csvSend env m r (updStats m (\<lambda>st. st\<lparr>current := Some (Progress (i + 1) len (phone r))\<rparr>) s) of
        (Inr sent, s1) \<Rightarrow>
          (let t = d_now env (world s1);
               s2 = updStats m (\<lambda>st. st\<lparr>clicks := clicks st + 1, lastClick := Some t\<rparr>) s1
           in onEvent given (RowSent t (clicks (stats (monitors s2 m))) i r) s2)
      | (Inl e, s1) \<Rightarrow>
          onEvent given
            (RowFailed (d_now env (world s1)) (clicks (stats (monitors s1 m))) i r (exn_message e)) s1)"

text \<open>
  After the loop: \<open>if (!stopped) { stats.running = false; stats.current = 'Done';
  onEvent?.({ done: true, clicks: stats.clicks }); try { await context.close(); } catch (_) { } }\<close>
\<close>

definition csvCompleted :: "'w driver \<Rightarrow> nat \<Rightarrow> bool \<Rightarrow> 'w sys \<Rightarrow> 'w sys" where
  "csvCompleted env m given s =
     (if stopped (monitors s m) then s
      else (let s1 = updStats m (\<lambda>st. st\<lparr>running := False, current := Some Done\<rparr>) s;
                s2 = onEvent given (AllDone (clicks (stats (monitors s1 m)))) s1
            in snd (closeContext env (m_context (monitors s2 m)) s2)))"

text \<open>
  \<open>for (let i = 0; i < rows.length && !stopped; i++) { ...; if (!stopped) await sleep(delayMs); }\<close>
  on the recipients that are left, \<open>i\<close> being the index of the first of them.
\<close>

fun csvLoop ::
  "'w driver \<Rightarrow> nat \<Rightarrow> bool \<Rightarrow> nat \<Rightarrow> nat \<Rightarrow> nat \<Rightarrow> recipient list \<Rightarrow> 'w sys \<Rightarrow> 'w sys" where
  "csvLoop env m given delayMs len i [] s = csvCompleted env m given s"
| "csvLoop env m given delayMs len i (r # rest) s =
     (if stopped (monitors s m) then csvCompleted env m given s
      else (let s1 = csvIteration env m given len i r s;
                s2 = (if \<not> stopped (monitors s1 m)
                      then suspended env m (sleep env delayMs s1) else s1)
            in csvLoop env m given delayMs len (Suc i) rest s2))"

text \<open>
  One turn of the watch loop, \<open>lastClickedAt\<close> being its local variable: the \<open>try\<close> (any
  error is ignored) and \<open>await sleep(500)\<close>.
\<close>

definition watchTick :: "'w driver \<Rightarrow> nat \<Rightarrow> bool \<Rightarrow> int \<Rightarrow> 'w sys \<Rightarrow> int \<times> 'w sys" where
  "watchTick env m given lastClickedAt s =
     (case (if d_now env (world s) - lastClickedAt > 1500
            then (case trySendClick env (m_page (monitors s m)) s of
                    (Inr True, s1) \<Rightarrow>
                      (let s2 = suspended env m s1;
                           t = d_now env (world s2);
                           s3 = updStats m (\<lambda>st. st\<lparr>clicks := clicks st + 1, lastClick := Some t\<rparr>) s2
                       in (t, onEvent given (WatchClicked t (clicks (stats (monitors s3 m)))) s3))
                  | (_, s1) \<Rightarrow> (lastClickedAt, suspended env m s1))
            else (lastClickedAt, s)) of
        (l, s4) \<Rightarrow> (l, suspended env m (sleep env 500 s4)))"

text \<open>\<open>while (!stopped) { ... }\<close>: it ends only by a stop; \<open>None\<close> where it never ends.\<close>

partial_function (option) watchLoop ::
  "'w driver \<Rightarrow> nat \<Rightarrow> bool \<Rightarrow> int \<Rightarrow> 'w sys \<Rightarrow> 'w sys option" where
  "watchLoop env m given lastClickedAt s =
     (if stopped (monitors s m) then Some s
      else watchLoop env m given (fst (watchTick env m given lastClickedAt s))
             (snd (watchTick env m given lastClickedAt s)))"

text \<open>
  The first \<open>n\<close> turns of that loop (fewer if it is stopped before), with the value of
  \<open>lastClickedAt\<close> they leave.
\<close>

fun watchTurns :: "'w driver \<Rightarrow> nat \<Rightarrow> bool \<Rightarrow> nat \<Rightarrow> int \<Rightarrow> 'w sys \<Rightarrow> int \<times> 'w sys" where
  "watchTurns env m given 0 lastClickedAt s = (lastClickedAt, s)"
| "watchTurns env m given (Suc n) lastClickedAt s =
     (if stopped (monitors s m) then (lastClickedAt, s)
      else watchTurns env m given n (fst (watchTick env m given lastClickedAt s))
             (snd (watchTick env m given lastClickedAt s)))"

text \<open>The loops \<open>startMonitor\<close> starts, as the event loop runs them.\<close>

definition runTask :: "'w driver \<Rightarrow> nat \<Rightarrow> task \<Rightarrow> 'w sys \<Rightarrow> 'w sys option" where
  "runTask env m t s =
     (case t of
        CsvTask rows delayMs given \<Rightarrow> Some (csvLoop env m given delayMs (length rows) 0 rows s)
      | WatchTask given \<Rightarrow>
          watchLoop env m given 0 (updStats m (\<lambda>st. st\<lparr>current := Some Watching\<rparr>) s))"

text \<open>
  \<open>startMonitor\<close> up to its await of \<open>waitForReady\<close>: the session, the page,
  \<open>lastPage = page\<close>, \<open>stats\<close> and \<open>stopped\<close>. The reference of the new closure is returned.
\<close>

definition startMonitorOpen :: "'w driver \<Rightarrow> 'w sys \<Rightarrow> (exn + nat) \<times> 'w sys" where
  "startMonitorOpen env =
     await (getContext env MONITOR_SESSION_DIR)
       (\<lambda>ctx. await (newPage env ctx)
          (\<lambda>p s. (Inr (monitorCount s),
                   s\<lparr>lastPage := Some p,
                     monitors := (monitors s)(monitorCount s :=
                       \<lparr>stats = \<lparr>running = True, clicks = 0, lastClick = None, current = None\<rparr>,
                        stopped = False, m_context = ctx, m_page = p\<rparr>),
                     monitorCount := Suc (monitorCount s)\<rparr>)))"

text \<open>
  \<open>startMonitor\<close> from \<open>await waitForReady(page)\<close> on: the loop is started and not awaited
  (CSV mode when \<open>rows && rows.length > 0\<close>), and the handle returned.
\<close>

definition startMonitorReady ::
  "'w driver \<Rightarrow> nat \<Rightarrow> recipient list option \<Rightarrow> nat \<Rightarrow> bool \<Rightarrow> 'w sys \<Rightarrow>
   ((exn + nat) \<times> 'w sys) option" where
  "startMonitorReady env m rows delayMs given s =
     (case waitForReady env (m_page (monitors s m)) s of
        None \<Rightarrow> None
      | Some (Inl e, s1) \<Rightarrow> Some (Inl e, s1)
      | Some (Inr _, s1) \<Rightarrow>
          Some (Inr m,
            s1\<lparr>spawned := spawned s1 @
                 [(m, case rows of
                        None \<Rightarrow> WatchTask given
                      | Some rs \<Rightarrow> if rs \<noteq> [] then CsvTask rs delayMs given
                                   else WatchTask given)]\<rparr>))"

definition startMonitor ::
  "'w driver \<Rightarrow> recipient list option \<Rightarrow> nat \<Rightarrow> bool \<Rightarrow> 'w sys \<Rightarrow> ((exn + nat) \<times> 'w sys) option" where
  "startMonitor env rows delayMs given s =
     (case startMonitorOpen env s of
        (Inl e, s1) \<Rightarrow> Some (Inl e, s1)
      | (Inr m, s1) \<Rightarrow> startMonitorReady env m rows delayMs given s1)"

section \<open>The server's monitor routes\<close>

text \<open>The parsed JSON body of \<open>POST /api/monitor/start\<close> and \<open>MonitorStartSchema\<close>.\<close>

record start_body =
  body_rows :: "recipient list option"
  body_delayMs :: "int option"

definition MonitorStartSchema :: "start_body \<Rightarrow> bool" where
  "MonitorStartSchema b \<longleftrightarrow>
     (case body_rows b of
        None \<Rightarrow> True
      | Some rs \<Rightarrow> list_all (\<lambda>r. 5 \<le> length (phone r) \<and> 1 \<le> length (message r)) rs) \<and>
     (case body_delayMs b of None \<Rightarrow> True | Some d \<Rightarrow> 500 \<le> d \<and> d \<le> 30000)"

datatype response =
    OkAlready
  | OkStarted
  | InvalidPayload
  | ServerError string

text \<open>
  The handler of \<open>POST /api/monitor/start\<close> answers at once, or is suspended inside
  \<open>startMonitor\<close>, in the wait for the login, with the closure it has made.
\<close>

datatype start_progress =
    Responded response
  | AwaitingReady nat "recipient list option" nat

text \<open>
  The handler up to that await: the guard on \<open>monitorHandle\<close>, the validation of the body,
  and the start of \<open>startMonitor\<close> (\<open>rows ?? null\<close>, \<open>delayMs ?? 4000\<close>).
\<close>

definition monitorStartBegin :: "'w driver \<Rightarrow> start_body \<Rightarrow> 'w sys \<Rightarrow> start_progress \<times> 'w sys" where
  "monitorStartBegin env b s =
     (if (case monitorHandle s of None \<Rightarrow> False | Some h \<Rightarrow> running (stats (monitors s h)))
      then (Responded OkAlready, s)
      else if \<not> MonitorStartSchema b then (Responded InvalidPayload, s)
      else (case startMonitorOpen env s of
              (Inl e, s1) \<Rightarrow> (Responded (ServerError (errorText e)), s1)
            | (Inr m, s1) \<Rightarrow>
                (AwaitingReady m (body_rows b)
                   (case body_delayMs b of None \<Rightarrow> 4000 | Some d \<Rightarrow> nat d), s1)))"

text \<open>
  The handler when it resumes: \<open>monitorHandle = await startMonitor(...)\<close> is assigned only
  now, and the answer sent.
\<close>

definition monitorStartResume ::
  "'w driver \<Rightarrow> nat \<Rightarrow> recipient list option \<Rightarrow> nat \<Rightarrow> 'w sys \<Rightarrow> (response \<times> 'w sys) option" where
  "monitorStartResume env m rows delayMs s =
     (case startMonitorReady env m rows delayMs True s of
        None \<Rightarrow> None
      | Some (Inl e, s1) \<Rightarrow> Some (ServerError (errorText e), s1)
      | Some (Inr h, s1) \<Rightarrow> Some (OkStarted, s1\<lparr>monitorHandle := Some h\<rparr>))"

text \<open>The handler when no other request is served during its await.\<close>

definition monitorStart :: "'w driver \<Rightarrow> start_body \<Rightarrow> 'w sys \<Rightarrow> (response \<times> 'w sys) option" where
  "monitorStart env b s =
     (case monitorStartBegin env b s of
        (Responded r, s1) \<Rightarrow> Some (r, s1)
      | (AwaitingReady m rows delayMs, s1) \<Rightarrow> monitorStartResume env m rows delayMs s1)"

text \<open>The monitors that are active: started, and their \<open>stats.running\<close> still true.\<close>

definition activeMonitors :: "'w sys \<Rightarrow> nat list" where
  "activeMonitors s = filter (\<lambda>m. running (stats (monitors s m))) [0..<monitorCount s]"

section \<open>Observing the trace\<close>

text \<open>The callbacks among the calls, and the events \<open>onProgress\<close> was called with.\<close>

fun isCallback :: "call \<Rightarrow> bool" where
  "isCallback (OnProgress e) = True"
| "isCallback (OnEvent e) = True"
| "isCallback c = False"

definition callbacks :: "'w sys \<Rightarrow> call list" where
  "callbacks s = filter isCallback (calls s)"

definition progressEvents :: "call list \<Rightarrow> progress list" where
  "progressEvents cs = concat (map (\<lambda>c. case c of OnProgress e \<Rightarrow> [e] | _ \<Rightarrow> []) cs)"

text \<open>What a stop does to a closure.\<close>

definition flagged :: "monitor \<Rightarrow> monitor" where
  "flagged c = c\<lparr>stats := (stats c)\<lparr>running := False\<rparr>, stopped := True\<rparr>"

text \<open>
  From \<open>s\<close> to \<open>s'\<close> nothing happened to the program's variables but, at most, a stop of
  monitor \<open>m\<close>; no callback was called.
\<close>

definition onlyStops :: "nat \<Rightarrow> 'w sys \<Rightarrow> 'w sys \<Rightarrow> bool" where
  "onlyStops m s s' \<longleftrightarrow>
     callbacks s' = callbacks s \<and>
     (monitors s' = monitors s \<or> monitors s' = (monitors s)(m := flagged (monitors s m)))"

section \<open>A simulated browser, for the examples\<close>

text \<open>
  A world for concrete runs: a clock in milliseconds, the document every page shows,
  whether the account is logged in (the message input appears only then), whether the
  browser was closed, whether a person keeps typing messages (the send control is then back
  after every sleep), and the time from which a stop of the monitor has been asked for.
\<close>

record sim =
  clock :: int
  document :: element
  loggedIn :: bool
  closed :: bool
  typing :: bool
  stopAt :: "int option"

text \<open>A chat whose only trace of a send control is the icon inside an unlabelled button.\<close>

definition composerDiv :: element where
  "composerDiv = Element ''div'' [(''contenteditable'', ''true''), (''data-tab'', ''10'')] True []"

definition sendIconSpan :: element where
  "sendIconSpan = Element ''span'' [(''data-icon'', ''send'')] True []"

definition iconButton :: element where
  "iconButton = Element ''button'' [] True [sendIconSpan]"

definition iconOnlyPage :: element where
  "iconOnlyPage = Element ''body'' [] False [composerDiv, iconButton]"

text \<open>
  A chat whose send icon is visible inside a button with \<open>offsetParent\<close> \<open>null\<close> (a button
  of fixed position has none).
\<close>

definition hiddenButton :: element where
  "hiddenButton = Element ''button'' [] False [sendIconSpan]"

definition hiddenButtonPage :: element where
  "hiddenButtonPage = Element ''body'' [] False [composerDiv, hiddenButton]"

text \<open>A chat with the message input and no send control at all.\<close>

definition noSendPage :: element where
  "noSendPage = Element ''body'' [] False [composerDiv]"

definition targetClosed :: exn where
  "targetClosed = Exn ''Error'' ''Target page, context or browser has been closed''"

text \<open>
  Its driver: a closed browser rejects navigation and key presses; a click of the in-page
  script takes 100 ms and sends the message, after which the page shows an empty body; the
  locators see nothing.
\<close>

definition simDriver :: "sim driver" where
  "simDriver =
     \<lparr>d_mkdir = (\<lambda>dir w. (Inr (), w)),
      d_launchPersistentContext = (\<lambda>dir w. (Inr 1, w)),
      d_newPage = (\<lambda>ctx w. (Inr 1, w)),
      d_goto = (\<lambda>p url w. if closed w then (Inl targetClosed, w) else (Inr (), w)),
      d_waitForSelector = (\<lambda>p sel w. (if loggedIn w then Appeared else Never, w)),
      d_evaluate = (\<lambda>p w. (Inr (document w), w)),
      d_elementClick =
        (\<lambda>p el w. w\<lparr>clock := clock w + 100, document := Element ''body'' [] False []\<rparr>),
      d_setZoom = (\<lambda>p w. w),
      d_isVisible = (\<lambda>p sel w. (Inr False, w)),
      d_click = (\<lambda>p sel w. (Inr (), w)),
      d_press = (\<lambda>p key w. if closed w then (Inl targetClosed, w) else (Inr (), w)),
      d_screenshot = (\<lambda>p w. (Inr [0x89, 0x50, 0x4E, 0x47], w)),
      d_isClosed = (\<lambda>p w. closed w),
      d_close = (\<lambda>ctx w. (Inr (), w\<lparr>closed := True\<rparr>)),
      d_sleep =
        (\<lambda>ms w. w\<lparr>clock := clock w + int ms,
                   document := (if typing w then iconOnlyPage else document w)\<rparr>),
      d_now = clock,
      d_stopRequested = (\<lambda>w. case stopAt w of None \<Rightarrow> False | Some t \<Rightarrow> t \<le> clock w)\<rparr>"

definition simWorld :: "element \<Rightarrow> sim" where
  "simWorld doc = \<lparr>clock = 1700000000000, document = doc, loggedIn = True, closed = False,
      typing = False, stopAt = None\<rparr>"

text \<open>The recipient of the specification's example, and its deep link.\<close>

definition demoRecipient :: recipient where
  "demoRecipient = \<lparr>phone = js ''919999999999'', message = js ''hi'', name = None\<rparr>"

definition demoUrl :: string where
  "demoUrl = ''https://web.whatsapp.com/send?phone=919999999999&text=hi''"

text \<open>
  A run of \<open>sendSingle\<close> on the chat without a send control: the states after the
  navigation, after the wait for the message input, after the five attempts and after the
  key press.
\<close>

definition chat :: "sim sys" where
  "chat = initialSys (simWorld noSendPage)"

definition afterGoto :: "sim sys" where
  "afterGoto = snd (goto simDriver 1 demoUrl chat)"

definition afterWait :: "sim sys" where
  "afterWait = snd (waitForSelector simDriver 1 composer 60000 afterGoto)"

definition afterAttempts :: "sim sys" where
  "afterAttempts = snd (sendAttempts simDriver 1 5 (sleep simDriver 2000 afterWait))"

definition afterEnter :: "sim sys" where
  "afterEnter = snd (press simDriver 1 ''Enter'' afterAttempts)"

text \<open>A recipient whose message is a lone surrogate: no deep link can be built for it.\<close>

definition brokenRecipient :: recipient where
  "brokenRecipient = \<lparr>phone = js ''919999999999'', message = [0xD83D], name = None\<rparr>"

text \<open>A batch on the chat without a send control: the states of its setup.\<close>

definition batchLaunched :: "sim sys" where
  "batchLaunched = chat\<lparr>calls := [Mkdir BATCH_SESSION_DIR, Launch BATCH_SESSION_DIR]\<rparr>"

definition batchPaged :: "sim sys" where
  "batchPaged = chat\<lparr>calls := [Mkdir BATCH_SESSION_DIR, Launch BATCH_SESSION_DIR, NewPage 1]\<rparr>"

definition batchReady :: "sim sys" where
  "batchReady = chat\<lparr>calls :=
     [Mkdir BATCH_SESSION_DIR, Launch BATCH_SESSION_DIR, NewPage 1,
      Goto 1 ''https://web.whatsapp.com/'', WaitForSelector 1 composer 0, Evaluate 1,
      SetZoom 1]\<rparr>"

text \<open>
  The monitor on the simulated browser: the state when \<open>startMonitor\<close> has opened its
  session; a world in which a stop is asked for 2600 ms from the start; a world in which a
  person keeps typing; and two states reached from them.
\<close>

definition monitorOpened :: "sim \<Rightarrow> sim sys" where
  "monitorOpened w = snd (startMonitorOpen simDriver (initialSys w))"

definition stopSoon :: sim where
  "stopSoon = (simWorld iconOnlyPage)\<lparr>stopAt := Some 1700000002600\<rparr>"

definition typist :: sim where
  "typist = (simWorld iconOnlyPage)\<lparr>typing := True\<rparr>"

definition enterPressed :: "sim sys" where
  "enterPressed =
     snd (csvSend simDriver 0 demoRecipient
       (updStats 0 (\<lambda>st. st\<lparr>current := Some (Progress (0 + 1) 1 (phone demoRecipient))\<rparr>)
          (monitorOpened (simWorld noSendPage))))"

definition firstTick :: "sim sys" where
  "firstTick = snd (watchTick simDriver 0 True 0 (monitorOpened typist))"

text \<open>The first five turns of the watch loop while the person keeps typing.\<close>

definition fiveTurns :: "int \<times> sim sys" where
  "fiveTurns = watchTurns simDriver 0 True 5 0 (monitorOpened typist)"

text \<open>
  Two start requests while the login is pending: a world in which the account is not
  logged in, the empty body \<open>{}\<close>, and the states after the first and after the second
  request have reached the wait for the login.
\<close>

definition loginPending :: sim where
  "loginPending = (simWorld noSendPage)\<lparr>loggedIn := False\<rparr>"

definition emptyBody :: start_body where
  "emptyBody = \<lparr>body_rows = None, body_delayMs = None\<rparr>"

definition firstStart :: "sim sys" where
  "firstStart = snd (monitorStartBegin simDriver emptyBody (initialSys loginPending))"

definition secondStart :: "sim sys" where
  "secondStart = snd (monitorStartBegin simDriver emptyBody firstStart)"

text \<open>The person scans the code: the account is logged in from now on.\<close>

definition scanned :: "sim sys \<Rightarrow> sim sys" where
  "scanned s = s\<lparr>world := (world s)\<lparr>loggedIn := True\<rparr>\<rparr>"

section \<open>Theorems\<close>

lemma uriUnescaped_ascii: "uriUnescaped c \<Longrightarrow> c < 0x80"
  by (auto simp: uriUnescaped_def)

subsection \<open>The deep link\<close>

lemma Encode_codePoints:
  "Encode cs =
     (if list_all (\<lambda>cp. cp < 0xD800 \<or> 0xDFFF < cp) (codePoints cs)
      then Inr (concat (map (\<lambda>cp. if uriUnescaped cp then [char_of cp]
                         else concat (map percentOctet (utf8 cp))) (codePoints cs)))
      else Inl URIError)"
proof (induction cs rule: codePoints.induct)
  case 1
  then show ?case by simp
next
  case (2 c)
  then show ?case by (auto dest: uriUnescaped_ascii)
next
  case (3 c d ds)
  show ?case
  proof (cases "0xD800 \<le> c \<and> c < 0xDC00 \<and> 0xDC00 \<le> d \<and> d \<le> 0xDFFF")
    case True
    then have "\<not> uriUnescaped c" by (auto dest: uriUnescaped_ascii)
    with True 3(1) show ?thesis by (auto dest: uriUnescaped_ascii)
  next
    case False
    with 3(2) show ?thesis by (auto dest: uriUnescaped_ascii)
  qed
qed

lemma encodeURIComponent_percentEncoded:
  "encodeURIComponent s = (if isWellFormed s then Inr (percentEncoded s) else Inl URIError)"
  by (simp add: encodeURIComponent_def isWellFormed_def percentEncoded_def Encode_codePoints)

lemma codePoints_bound:
  "\<forall>c\<in>set cs. c < 0x10000 \<Longrightarrow> \<forall>cp\<in>set (codePoints cs). cp < 0x110000"
  by (induction cs rule: codePoints.induct) auto

lemma utf8_octets:
  assumes "cp < 0x110000" and "b \<in> set (utf8 cp)"
  shows "b < 256"
proof -
  have m: "cp mod 0x40 < 0x40" "(cp div 0x40) mod 0x40 < 0x40" "(cp div 0x1000) mod 0x40 < 0x40"
    by simp_all
  have d2: "cp < 0x800 \<Longrightarrow> cp div 0x40 < 0x20"
    by (simp add: div_less_iff_less_mult)
  have d3: "cp < 0x10000 \<Longrightarrow> cp div 0x1000 < 0x10"
    by (simp add: div_less_iff_less_mult)
  have d4: "cp div 0x40000 < 0x8"
    using assms(1) by (simp add: div_less_iff_less_mult)
  show ?thesis
    using assms(2) m d2 d3 d4 by (auto simp: utf8_def split: if_splits)
qed

lemma unescaped_safe:
  assumes "uriUnescaped c"
  shows "char_of c \<notin> queryDelimiters"
proof
  assume "char_of c \<in> queryDelimiters"
  then have "(of_char (char_of c :: char) :: nat) \<in> of_char ` queryDelimiters"
    by (rule imageI)
  moreover have "c < 256"
    using uriUnescaped_ascii [OF assms] by simp
  ultimately have "c \<in> {38, 61, 63, 35, 47, 58, 43, 32}"
    by (simp add: queryDelimiters_def)
  with assms show False
    by (auto simp: uriUnescaped_def)
qed

lemma hexDigit_safe: "n < 16 \<Longrightarrow> hexDigit n \<notin> queryDelimiters"
proof -
  assume "n < 16"
  then have "n \<in> set [0,1,2,3,4,5,6,7,8,9,10,11,12,13,14,15]"
    by simp presburger
  then show ?thesis
    unfolding hexDigit_def queryDelimiters_def by fastforce
qed

lemma percentOctet_safe: "b < 256 \<Longrightarrow> set (percentOctet b) \<inter> queryDelimiters = {}"
  using hexDigit_safe [of "b div 16"] hexDigit_safe [of "b mod 16"]
  by (simp add: percentOctet_def div_less_iff_less_mult) (simp add: queryDelimiters_def)

lemma concat_map_disjoint:
  "\<forall>x\<in>set xs. set (f x) \<inter> D = {} \<Longrightarrow> set (concat (map f xs)) \<inter> D = {}"
  by (induction xs) auto

lemma percentEncoded_safe: "set (percentEncoded s) \<inter> queryDelimiters = {}"
proof -
  have "\<forall>c\<in>set (map unat s). c < 0x10000"
  proof
    fix c assume "c \<in> set (map unat s)"
    then obtain w :: "16 word" where "c = unat w" by auto
    then show "c < 0x10000" using unsigned_less [of w] by simp
  qed
  then have b: "\<forall>cp\<in>set (codePoints (map unat s)). cp < 0x110000"
    by (rule codePoints_bound)
  have "set (if uriUnescaped cp then [char_of cp] else concat (map percentOctet (utf8 cp)))
          \<inter> queryDelimiters = {}" if "cp < 0x110000" for cp
  proof (cases "uriUnescaped cp")
    case True
    then show ?thesis using unescaped_safe by simp
  next
    case False
    have "set (percentOctet b) \<inter> queryDelimiters = {}" if "b \<in> set (utf8 cp)" for b
      using percentOctet_safe utf8_octets [OF \<open>cp < 0x110000\<close> that] by blast
    with False show ?thesis by auto
  qed
  with b have "\<forall>cp\<in>set (codePoints (map unat s)).
      set (if uriUnescaped cp then [char_of cp] else concat (map percentOctet (utf8 cp)))
        \<inter> queryDelimiters = {}"
    by blast
  then show ?thesis
    unfolding percentEncoded_def by (rule concat_map_disjoint)
qed

lemma unreserved_iff: "c \<in> set unreserved \<longleftrightarrow> uriUnescaped (of_char c)"
proof (cases c)
  case (Char b0 b1 b2 b3 b4 b5 b6 b7)
  show ?thesis
    unfolding Char unreserved_def uriUnescaped_def
    by (cases b0; cases b1; cases b2; cases b3; cases b4; cases b5; cases b6; cases b7) simp_all
qed

lemma hexValue_hexDigit: "n < 16 \<Longrightarrow> hexValue (hexDigit n) = Some n"
proof -
  assume "n < 16"
  then have "n \<in> set [0,1,2,3,4,5,6,7,8,9,10,11,12,13,14,15]"
    by simp presburger
  then show ?thesis
    unfolding hexDigit_def hexValue_def by fastforce
qed

lemma percentDecode_octet:
  assumes "b < 256" and "\<not> uriUnescaped b"
  shows "percentDecode (percentOctet b @ rest) = map_option ((#) b) (percentDecode rest)"
proof -
  have h: "hexValue (hexDigit (b div 16)) = Some (b div 16)"
    "hexValue (hexDigit (b mod 16)) = Some (b mod 16)"
    using assms(1) by (simp_all add: hexValue_hexDigit div_less_iff_less_mult)
  have e: "16 * (b div 16) + b mod 16 = b" by simp
  have "of_char (char_of b :: char) = b" using assms(1) by simp
  then have u: "char_of b \<notin> set unreserved"
    using assms(2) by (simp add: unreserved_iff)
  show ?thesis
    by (simp add: percentOctet_def h e u)
qed

lemma percentDecode_literal:
  assumes "uriUnescaped c"
  shows "percentDecode (char_of c # rest) = map_option ((#) c) (percentDecode rest)"
proof -
  have c: "c < 0x80" using assms by (rule uriUnescaped_ascii)
  then have o: "of_char (char_of c :: char) = c" by simp
  have "\<not> uriUnescaped (of_char CHR ''%'')" by (simp add: uriUnescaped_def)
  with assms o have n: "(char_of c :: char) \<noteq> CHR ''%''" by metis
  have u: "(char_of c :: char) \<in> set unreserved"
    using assms o by (simp add: unreserved_iff)
  show ?thesis
    using n u o by simp
qed

lemma percentDecode_octets:
  "\<forall>b\<in>set bs. b < 256 \<and> \<not> uriUnescaped b \<Longrightarrow>
   percentDecode (concat (map percentOctet bs) @ rest) = map_option ((@) bs) (percentDecode rest)"
proof (induction bs)
  case Nil
  then show ?case by (simp add: option.map_ident)
next
  case (Cons b bs)
  then show ?case
    by (simp add: percentDecode_octet option.map_comp comp_def)
qed

lemma utf8_escaped:
  assumes "\<not> uriUnescaped cp" and "b \<in> set (utf8 cp)"
  shows "\<not> uriUnescaped b"
proof (cases "cp < 0x80")
  case True
  with assms show ?thesis by (simp add: utf8_def)
next
  case False
  with assms(2) have "0x80 \<le> b" by (auto simp: utf8_def split: if_splits)
  then show ?thesis using uriUnescaped_ascii [of b] by auto
qed

lemma utf8Decode_utf8:
  assumes r: "cp < 0x110000" and s: "cp < 0xD800 \<or> 0xDFFF < cp"
  shows "utf8Decode (utf8 cp @ bs) = map_option ((#) cp) (utf8Decode bs)"
proof -
  have m: "cp mod 0x40 < 0x40" "(cp div 0x40) mod 0x40 < 0x40" "(cp div 0x1000) mod 0x40 < 0x40"
    by simp_all
  consider (one) "cp < 0x80" | (two) "0x80 \<le> cp" "cp < 0x800"
    | (three) "0x800 \<le> cp" "cp < 0x10000" | (four) "0x10000 \<le> cp"
    by linarith
  then show ?thesis
  proof cases
    case one
    then show ?thesis by (simp add: utf8_def)
  next
    case two
    define a where "a = cp div 0x40"
    define b where "b = cp mod 0x40"
    have a: "a < 0x20" using two by (simp add: a_def div_less_iff_less_mult)
    have b: "b < 0x40" by (simp add: b_def)
    have cp: "a * 0x40 + b = cp" by (simp add: a_def b_def)
    have u: "utf8 cp = [0xC0 + a, 0x80 + b]"
      using two by (simp add: utf8_def a_def b_def)
    show ?thesis
      unfolding u using a b cp two by (simp add: continuation_def)
  next
    case three
    define a where "a = cp div 0x1000"
    define b where "b = (cp div 0x40) mod 0x40"
    define c where "c = cp mod 0x40"
    have a: "a < 0x10" using three by (simp add: a_def div_less_iff_less_mult)
    have b: "b < 0x40" by (simp add: b_def)
    have c: "c < 0x40" by (simp add: c_def)
    have "cp div 0x1000 = (cp div 0x40) div 0x40" by (simp add: div_mult2_eq)
    then have "a * 0x40 + b = cp div 0x40" by (simp add: a_def b_def)
    then have "(a * 0x40 + b) * 0x40 + c = cp" by (simp add: c_def)
    then have cp: "a * 0x1000 + b * 0x40 + c = cp" by simp
    have u: "utf8 cp = [0xE0 + a, 0x80 + b, 0x80 + c]"
      using three by (simp add: utf8_def a_def b_def c_def)
    show ?thesis
      unfolding u using a b c cp three s by (simp add: continuation_def)
  next
    case four
    define a where "a = cp div 0x40000"
    define b where "b = (cp div 0x1000) mod 0x40"
    define c where "c = (cp div 0x40) mod 0x40"
    define d where "d = cp mod 0x40"
    have a: "a < 0x8" using r by (simp add: a_def div_less_iff_less_mult)
    have b: "b < 0x40" by (simp add: b_def)
    have c: "c < 0x40" by (simp add: c_def)
    have d: "d < 0x40" by (simp add: d_def)
    have "cp div 0x1000 = (cp div 0x40) div 0x40" by (simp add: div_mult2_eq)
    then have 1: "(cp div 0x1000) * 0x40 + c = cp div 0x40" by (simp add: c_def)
    have "cp div 0x40000 = (cp div 0x1000) div 0x40" by (simp add: div_mult2_eq)
    then have 2: "a * 0x40 + b = cp div 0x1000" by (simp add: a_def b_def)
    have "((a * 0x40 + b) * 0x40 + c) * 0x40 + d = cp"
      unfolding 2 1 by (simp add: d_def)
    then have cp: "a * 0x40000 + b * 0x1000 + c * 0x40 + d = cp" by simp
    have u: "utf8 cp = [0xF0 + a, 0x80 + b, 0x80 + c, 0x80 + d]"
      using four by (simp add: utf8_def a_def b_def c_def d_def)
    show ?thesis
      unfolding u using a b c d cp four r by (simp add: continuation_def)
  qed
qed

lemma jsstring_codePoints_bound: "\<forall>cp\<in>set (codePoints (map unat (s :: jsstring))). cp < 0x110000"
proof -
  have "\<forall>c\<in>set (map unat s). c < 0x10000"
  proof
    fix c assume "c \<in> set (map unat s)"
    then obtain w :: "16 word" where "c = unat w" by auto
    then show "c < 0x10000" using unsigned_less [of w] by simp
  qed
  then show ?thesis by (rule codePoints_bound)
qed

lemma percentDecode_encoded:
  "\<forall>cp\<in>set cps. cp < 0x110000 \<Longrightarrow>
   percentDecode (concat (map (\<lambda>cp. if uriUnescaped cp then [char_of cp]
                                     else concat (map percentOctet (utf8 cp))) cps)) =
     Some (concat (map utf8 cps))"
proof (induction cps)
  case Nil
  then show ?case by simp
next
  case (Cons cp cps)
  show ?case
  proof (cases "uriUnescaped cp")
    case True
    then have "utf8 cp = [cp]"
      using uriUnescaped_ascii [of cp] by (simp add: utf8_def)
    with True Cons show ?thesis
      by (simp add: percentDecode_literal del: percentDecode.simps(2))
  next
    case False
    have "\<forall>b\<in>set (utf8 cp). b < 256 \<and> \<not> uriUnescaped b"
      using Cons.prems False utf8_octets [of cp] utf8_escaped [of cp] by simp
    with False Cons show ?thesis
      by (simp add: percentDecode_octets del: percentDecode.simps(2))
  qed
qed

lemma utf8Decode_concat:
  "\<forall>cp\<in>set cps. cp < 0x110000 \<Longrightarrow> list_all (\<lambda>cp. cp < 0xD800 \<or> 0xDFFF < cp) cps \<Longrightarrow>
   utf8Decode (concat (map utf8 cps)) = Some cps"
  by (induction cps) (simp_all add: utf8Decode_utf8)

lemma percentDecoded_percentEncoded:
  "isWellFormed s \<Longrightarrow> percentDecoded (percentEncoded s) = Some (codePoints (map unat s))"
  unfolding percentDecoded_def percentEncoded_def isWellFormed_def
  by (simp add: percentDecode_encoded utf8Decode_concat jsstring_codePoints_bound)

lemma hexValue_Some:
  assumes "hexValue h = Some a"
  shows "a < 16 \<and> h = hexDigit a"
proof (cases "h \<in> set ''0123456789''")
  case True
  then have "h = CHR ''0'' \<or> h = CHR ''1'' \<or> h = CHR ''2'' \<or> h = CHR ''3'' \<or> h = CHR ''4'' \<or>
             h = CHR ''5'' \<or> h = CHR ''6'' \<or> h = CHR ''7'' \<or> h = CHR ''8'' \<or> h = CHR ''9''"
    by simp
  then show ?thesis
    using assms unfolding hexValue_def hexDigit_def
    by (elim disjE) auto
next
  case False
  with assms have "h \<in> set ''ABCDEF''"
    unfolding hexValue_def by (simp split: if_splits)
  then have "h = CHR ''A'' \<or> h = CHR ''B'' \<or> h = CHR ''C'' \<or> h = CHR ''D'' \<or> h = CHR ''E'' \<or>
             h = CHR ''F''"
    by simp
  then show ?thesis
    using assms unfolding hexValue_def hexDigit_def
    by (elim disjE) auto
qed

lemma percentDecode_escape:
  assumes "percentDecode (CHR ''%'' # cs) = Some bs"
  obtains h l rest a b bs' where "cs = h # l # rest" "hexValue h = Some a" "hexValue l = Some b"
    "char_of (16 * a + b) \<notin> set unreserved" "percentDecode rest = Some bs'"
    "bs = (16 * a + b) # bs'"
proof -
  from assms obtain h l rest where cs: "cs = h # l # rest"
    by (cases cs; cases "tl cs") auto
  from assms cs obtain a where h: "hexValue h = Some a"
    by (cases "hexValue h") auto
  from assms cs h obtain b where l: "hexValue l = Some b"
    by (cases "hexValue l") auto
  from assms cs h l have u: "char_of (16 * a + b) \<notin> set unreserved"
    by (auto split: if_splits)
  from assms cs h l u obtain bs' where "percentDecode rest = Some bs'" "bs = (16 * a + b) # bs'"
    by auto
  with cs h l u show ?thesis by (rule that)
qed

lemma percentDecode_unique:
  "percentDecode p = Some bs \<Longrightarrow>
   p = concat (map (\<lambda>b. if uriUnescaped b then [char_of b] else percentOctet b) bs)"
proof (induction p arbitrary: bs rule: length_induct)
  case (1 p)
  show ?case
  proof (cases p)
    case Nil
    with 1(2) show ?thesis by simp
  next
    case (Cons c cs)
    show ?thesis
    proof (cases "c = CHR ''%''")
      case True
      from 1(2) Cons True have "percentDecode (CHR ''%'' # cs) = Some bs" by simp
      then obtain h l rest a b bs' where
        cs: "cs = h # l # rest" and h: "hexValue h = Some a" and l: "hexValue l = Some b"
        and u: "char_of (16 * a + b) \<notin> set unreserved"
        and r: "percentDecode rest = Some bs'" and bs: "bs = (16 * a + b) # bs'"
        by (rule percentDecode_escape)
      have ab: "a < 16" "b < 16" "h = hexDigit a" "l = hexDigit b"
        using h l by (auto dest: hexValue_Some)
      then have n: "16 * a + b < 256" by simp
      then have "of_char (char_of (16 * a + b) :: char) = 16 * a + b" by simp
      with u have nu: "\<not> uriUnescaped (16 * a + b)" by (simp add: unreserved_iff)
      have d: "(16 * a + b) div 16 = a" "(16 * a + b) mod 16 = b" using ab by simp_all
      have "length rest < length p" using Cons cs by simp
      with 1(1) r
      have "rest = concat (map (\<lambda>b. if uriUnescaped b then [char_of b] else percentOctet b) bs')"
        by blast
      then show ?thesis
        using True Cons cs bs nu d ab by (simp add: percentOctet_def)
    next
      case False
      with 1(2) Cons obtain bs' where u: "c \<in> set unreserved"
        and r: "percentDecode cs = Some bs'" and bs: "bs = of_char c # bs'"
        by (auto split: if_splits)
      have "length cs < length p" using Cons by simp
      with 1(1) r
      have "cs = concat (map (\<lambda>b. if uriUnescaped b then [char_of b] else percentOctet b) bs')"
        by blast
      then show ?thesis
        using u bs Cons by (simp add: unreserved_iff)
    qed
  qed
qed

lemma utf8Decode_head:
  assumes "utf8Decode (b # bs) = Some cps"
  obtains cp rest cps' where "b # bs = utf8 cp @ rest" "utf8Decode rest = Some cps'"
    "cps = cp # cps'" "length rest < length (b # bs)"
proof -
  consider (one) "b < 0x80" | (two) "0xC0 \<le> b" "b < 0xE0" | (three) "0xE0 \<le> b" "b < 0xF0"
    | (four) "0xF0 \<le> b" "b < 0xF8" | (none) "0x80 \<le> b" "b < 0xC0" | (big) "0xF8 \<le> b"
    by linarith
  then show ?thesis
  proof cases
    case one
    with assms obtain cps' where "utf8Decode bs = Some cps'" "cps = b # cps'" by auto
    moreover have "b # bs = utf8 b @ bs" using one by (simp add: utf8_def)
    ultimately show ?thesis using that [of b bs cps'] by simp
  next
    case two
    from assms two obtain c1 rest where bs: "bs = c1 # rest"
      by (cases bs) auto
    define x where "x = b - 0xC0"
    define y where "y = c1 - 0x80"
    define cp where "cp = x * 0x40 + y"
    from assms two bs have c: "continuation c1" and lo: "0x80 \<le> cp"
      by (auto simp: Let_def cp_def x_def y_def split: if_splits)
    from assms two bs c lo obtain cps' where r: "utf8Decode rest = Some cps'" and cps: "cps = cp # cps'"
      by (auto simp: Let_def cp_def x_def y_def)
    have x: "x < 0x20" "b = 0xC0 + x" using two by (auto simp: x_def)
    have y: "y < 0x40" "c1 = 0x80 + y" using c by (auto simp: y_def continuation_def)
    have "cp div 0x40 = x" "cp mod 0x40 = y" using y(1) by (simp_all add: cp_def)
    moreover have "cp < 0x800" using x(1) y(1) by (simp add: cp_def)
    ultimately have "utf8 cp = [b, c1]"
      using lo x(2) y(2) by (simp add: utf8_def)
    then have "b # bs = utf8 cp @ rest" using bs by simp
    then show ?thesis using r cps by (rule that) (simp add: bs)
  next
    case three
    from assms three obtain c1 c2 rest where bs: "bs = c1 # c2 # rest"
      by (cases bs; cases "tl bs") auto
    define x where "x = b - 0xE0"
    define y where "y = c1 - 0x80"
    define z where "z = c2 - 0x80"
    define cp where "cp = x * 0x1000 + y * 0x40 + z"
    from assms three bs have c: "continuation c1" "continuation c2" and lo: "0x800 \<le> cp"
      by (auto simp: Let_def cp_def x_def y_def z_def split: if_splits)
    from assms three bs c lo obtain cps' where r: "utf8Decode rest = Some cps'" and cps: "cps = cp # cps'"
      by (auto simp: Let_def cp_def x_def y_def z_def split: if_splits)
    have x: "x < 0x10" "b = 0xE0 + x" using three by (auto simp: x_def)
    have y: "y < 0x40" "c1 = 0x80 + y" using c by (auto simp: y_def continuation_def)
    have z: "z < 0x40" "c2 = 0x80 + z" using c by (auto simp: z_def continuation_def)
    define q where "q = x * 0x40 + y"
    have e: "cp = q * 0x40 + z" by (simp add: cp_def q_def)
    have m: "cp mod 0x40 = z" "cp div 0x40 = q" using z(1) by (simp_all add: e)
    have q: "q div 0x40 = x" "q mod 0x40 = y" using y(1) by (simp_all add: q_def)
    have "cp div 0x1000 = (cp div 0x40) div 0x40" by (simp add: div_mult2_eq)
    then have d: "cp div 0x1000 = x" "(cp div 0x40) mod 0x40 = y" using q m by simp_all
    have "cp < 0x10000" using x(1) y(1) z(1) by (simp add: cp_def)
    then have "utf8 cp = [b, c1, c2]"
      using lo x(2) y(2) z(2) m d by (simp add: utf8_def)
    then have "b # bs = utf8 cp @ rest" using bs by simp
    then show ?thesis using r cps by (rule that) (simp add: bs)
  next
    case four
    from assms four obtain c1 c2 c3 rest where bs: "bs = c1 # c2 # c3 # rest"
      by (cases bs; cases "tl bs"; cases "tl (tl bs)") auto
    define x where "x = b - 0xF0"
    define y where "y = c1 - 0x80"
    define z where "z = c2 - 0x80"
    define w where "w = c3 - 0x80"
    define cp where "cp = x * 0x40000 + y * 0x1000 + z * 0x40 + w"
    from assms four bs have c: "continuation c1" "continuation c2" "continuation c3"
      and lo: "0x10000 \<le> cp"
      by (auto simp: Let_def cp_def x_def y_def z_def w_def split: if_splits)
    from assms four bs c lo obtain cps' where r: "utf8Decode rest = Some cps'" and cps: "cps = cp # cps'"
      by (auto simp: Let_def cp_def x_def y_def z_def w_def split: if_splits)
    have x: "x < 0x8" "b = 0xF0 + x" using four by (auto simp: x_def)
    have y: "y < 0x40" "c1 = 0x80 + y" using c by (auto simp: y_def continuation_def)
    have z: "z < 0x40" "c2 = 0x80 + z" using c by (auto simp: z_def continuation_def)
    have w: "w < 0x40" "c3 = 0x80 + w" using c by (auto simp: w_def continuation_def)
    define q where "q = x * 0x40 + y"
    define p where "p = q * 0x40 + z"
    have e: "cp = p * 0x40 + w" by (simp add: cp_def p_def q_def)
    have m: "cp mod 0x40 = w" "cp div 0x40 = p" using w(1) by (simp_all add: e)
    have p: "p div 0x40 = q" "p mod 0x40 = z" using z(1) by (simp_all add: p_def)
    have q: "q div 0x40 = x" "q mod 0x40 = y" using y(1) by (simp_all add: q_def)
    have "cp div 0x1000 = (cp div 0x40) div 0x40" by (simp add: div_mult2_eq)
    then have d: "cp div 0x1000 = q" "(cp div 0x40) mod 0x40 = z" using p m by simp_all
    have "cp div 0x40000 = (cp div 0x1000) div 0x40" by (simp add: div_mult2_eq)
    then have d': "cp div 0x40000 = x" "(cp div 0x1000) mod 0x40 = y" using q d by simp_all
    have "utf8 cp = [b, c1, c2, c3]"
      using lo x(2) y(2) z(2) w(2) m d d' by (simp add: utf8_def)
    then have "b # bs = utf8 cp @ rest" using bs by simp
    then show ?thesis using r cps by (rule that) (simp add: bs)
  next
    case none
    with assms show ?thesis by simp
  next
    case big
    with assms show ?thesis by simp
  qed
qed

lemma utf8Decode_unique: "utf8Decode bs = Some cps \<Longrightarrow> bs = concat (map utf8 cps)"
proof (induction bs arbitrary: cps rule: length_induct)
  case (1 bs)
  show ?case
  proof (cases bs)
    case Nil
    with 1(2) show ?thesis by simp
  next
    case (Cons b bs')
    with 1(2) have "utf8Decode (b # bs') = Some cps" by simp
    then obtain cp rest cps' where h: "b # bs' = utf8 cp @ rest" "utf8Decode rest = Some cps'"
      "cps = cp # cps'" "length rest < length (b # bs')"
      by (rule utf8Decode_head)
    with 1(1) Cons have "rest = concat (map utf8 cps')" by blast
    with h Cons show ?thesis by simp
  qed
qed

lemma percentDecoded_unique:
  assumes "percentDecoded p = Some cps" and "percentDecoded q = Some cps"
  shows "p = q"
proof -
  have "\<exists>bs. percentDecode r = Some bs \<and> utf8Decode bs = Some cps"
    if "percentDecoded r = Some cps" for r
    using that by (cases "percentDecode r") (simp_all add: percentDecoded_def)
  then have u: "r = concat (map (\<lambda>b. if uriUnescaped b then [char_of b] else percentOctet b)
                      (concat (map utf8 cps)))"
    if "percentDecoded r = Some cps" for r
    using that percentDecode_unique utf8Decode_unique by blast
  show ?thesis
    using u [OF assms(1)] u [OF assms(2)] by (rule trans [OF _ sym])
qed

text \<open>
  C6. For every phone and message that are well-formed UTF-16, \<open>buildWhatsAppUrl\<close>
  returns exactly \<open>https://web.whatsapp.com/send?phone=P&text=T\<close>, where \<open>P\<close> and \<open>T\<close> are
  the percent-encoded phone and message: read back by percent-decoding and UTF-8
  decoding, \<open>P\<close> gives the code points of the phone and \<open>T\<close> those of the message (and no
  other string does, by \<open>percentDecoded_unique\<close>); neither holds a character that
  delimits a query, so they are the two parameters of the link. The one case in which no
  link is built is a phone or a message with an unpaired surrogate: \<open>encodeURIComponent\<close>
  then throws \<open>URIError\<close>.
\<close>

theorem buildWhatsAppUrl_deep_link:
  "if isWellFormed phone_arg \<and> isWellFormed message_arg
   then \<exists>p t. buildWhatsAppUrl phone_arg message_arg =
                 Inr (''https://web.whatsapp.com/send?phone='' @ p @ ''&text='' @ t) \<and>
               percentDecoded p = Some (codePoints (map unat phone_arg)) \<and>
               percentDecoded t = Some (codePoints (map unat message_arg)) \<and>
               set p \<inter> queryDelimiters = {} \<and> set t \<inter> queryDelimiters = {}
   else buildWhatsAppUrl phone_arg message_arg = Inl URIError"
proof (cases "isWellFormed phone_arg \<and> isWellFormed message_arg")
  case True
  then have "buildWhatsAppUrl phone_arg message_arg =
      Inr (''https://web.whatsapp.com/send?phone='' @ percentEncoded phone_arg @
           ''&text='' @ percentEncoded message_arg)"
    by (simp add: buildWhatsAppUrl_def encodeURIComponent_percentEncoded)
  moreover have "percentDecoded (percentEncoded phone_arg) = Some (codePoints (map unat phone_arg))"
    "percentDecoded (percentEncoded message_arg) = Some (codePoints (map unat message_arg))"
    using True by (simp_all add: percentDecoded_percentEncoded)
  moreover have "set (percentEncoded phone_arg) \<inter> queryDelimiters = {}"
    "set (percentEncoded message_arg) \<inter> queryDelimiters = {}"
    by (rule percentEncoded_safe)+
  ultimately show ?thesis
    using True by (simp del: append.simps) blast
next
  case False
  then show ?thesis
    by (auto simp: buildWhatsAppUrl_def encodeURIComponent_percentEncoded)
qed

lemmas eval_string =
  js_def isWellFormed_def percentEncoded_def uriUnescaped_def utf8_def percentOctet_def
  hexDigit_def char_of_def bit_Suc_0_iff

lemmas eval_decode =
  percentDecoded_def unreserved_iff hexValue_def continuation_def uriUnescaped_def Let_def

theorem buildWhatsAppUrl_deep_link_witness:
  "isWellFormed (js ''919999999999'') \<and> isWellFormed [0x68, 0xE9, 0xD83D, 0xDE00, 0x20AC] \<and>
   (\<exists>p t. buildWhatsAppUrl (js ''919999999999'') [0x68, 0xE9, 0xD83D, 0xDE00, 0x20AC] =
            Inr (''https://web.whatsapp.com/send?phone='' @ p @ ''&text='' @ t) \<and>
          percentDecoded p = Some [57, 49, 57, 57, 57, 57, 57, 57, 57, 57, 57, 57] \<and>
          percentDecoded t = Some [0x68, 0xE9, 0x1F600, 0x20AC] \<and>
          set p \<inter> queryDelimiters = {} \<and> set t \<inter> queryDelimiters = {}) \<and>
   buildWhatsAppUrl (js ''919999999999'') [0x68, 0xE9, 0xD83D, 0xDE00, 0x20AC] =
     Inr ''https://web.whatsapp.com/send?phone=919999999999&text=h%C3%A9%F0%9F%98%80%E2%82%AC'' \<and>
   percentDecoded ''919999999999'' = Some [57, 49, 57, 57, 57, 57, 57, 57, 57, 57, 57, 57] \<and>
   percentDecoded ''h%C3%A9%F0%9F%98%80%E2%82%AC'' = Some [0x68, 0xE9, 0x1F600, 0x20AC]"
proof -
  have w: "isWellFormed (js ''919999999999'') = True"
    "isWellFormed [0x68, 0xE9, 0xD83D, 0xDE00, 0x20AC] = True"
    by (simp_all add: eval_string)
  have c: "codePoints (map unat (js ''919999999999'')) =
             [57, 49, 57, 57, 57, 57, 57, 57, 57, 57, 57, 57]"
    "codePoints (map unat [0x68, 0xE9, 0xD83D, 0xDE00, 0x20AC :: 16 word]) =
       [0x68, 0xE9, 0x1F600, 0x20AC]"
    by (simp_all add: js_def)
  have e: "\<exists>p t. buildWhatsAppUrl (js ''919999999999'') [0x68, 0xE9, 0xD83D, 0xDE00, 0x20AC] =
            Inr (''https://web.whatsapp.com/send?phone='' @ p @ ''&text='' @ t) \<and>
          percentDecoded p = Some [57, 49, 57, 57, 57, 57, 57, 57, 57, 57, 57, 57] \<and>
          percentDecoded t = Some [0x68, 0xE9, 0x1F600, 0x20AC] \<and>
          set p \<inter> queryDelimiters = {} \<and> set t \<inter> queryDelimiters = {}"
    using buildWhatsAppUrl_deep_link [of "js ''919999999999''" "[0x68, 0xE9, 0xD83D, 0xDE00, 0x20AC]"]
    by (simp only: w c simp_thms if_True)
  have u: "buildWhatsAppUrl (js ''919999999999'') [0x68, 0xE9, 0xD83D, 0xDE00, 0x20AC] =
     Inr ''https://web.whatsapp.com/send?phone=919999999999&text=h%C3%A9%F0%9F%98%80%E2%82%AC''"
    by (simp add: buildWhatsAppUrl_def encodeURIComponent_def eval_string)
  have d: "percentDecoded ''919999999999'' = Some [57, 49, 57, 57, 57, 57, 57, 57, 57, 57, 57, 57]"
    "percentDecoded ''h%C3%A9%F0%9F%98%80%E2%82%AC'' = Some [0x68, 0xE9, 0x1F600, 0x20AC]"
    by (simp_all add: eval_decode)
  from w e u d show ?thesis by blast
qed

subsection \<open>The screenshot\<close>

text \<open>
  C8. When no page is open (\<open>lastPage\<close> is \<open>null\<close>) or the last page has been closed,
  \<open>getScreenshot\<close> returns \<open>null\<close> and leaves everything as it was; so it does when the
  modules have just been loaded and no session was ever opened; and in no state does it
  throw.
\<close>

theorem getScreenshot_unavailable:
  assumes "lastPage s = None \<or> (\<exists>p. lastPage s = Some p \<and> d_isClosed env p (world s))"
  shows "getScreenshot env s = (Inr None, s) \<and>
         getScreenshot env (initialSys w) = (Inr None, initialSys w) \<and>
         (\<forall>s'. \<exists>r. fst (getScreenshot env s') = Inr r)"
proof -
  have "getScreenshot env s = (Inr None, s)"
    using assms by (auto simp: getScreenshot_def)
  moreover have "getScreenshot env (initialSys w) = (Inr None, initialSys w)"
    by (simp add: getScreenshot_def initialSys_def)
  moreover have "\<exists>r. fst (getScreenshot env s') = Inr r" for s'
    by (simp add: getScreenshot_def perform_def split: option.split prod.split sum.split)
  ultimately show ?thesis by blast
qed

theorem getScreenshot_unavailable_witness:
  "(lastPage ((initialSys ((simWorld noSendPage)\<lparr>closed := True\<rparr>))\<lparr>lastPage := Some 1\<rparr>) = None \<or>
    (lastPage ((initialSys ((simWorld noSendPage)\<lparr>closed := True\<rparr>))\<lparr>lastPage := Some 1\<rparr>) = Some 1 \<and>
     d_isClosed simDriver 1
       (world ((initialSys ((simWorld noSendPage)\<lparr>closed := True\<rparr>))\<lparr>lastPage := Some 1\<rparr>)))) \<and>
   fst (getScreenshot simDriver
     ((initialSys ((simWorld noSendPage)\<lparr>closed := True\<rparr>))\<lparr>lastPage := Some 1\<rparr>)) = Inr None"
  using getScreenshot_unavailable
    [of "(initialSys ((simWorld noSendPage)\<lparr>closed := True\<rparr>))\<lparr>lastPage := Some 1\<rparr>" simDriver]
  by (simp add: initialSys_def simDriver_def simWorld_def)

subsection \<open>Evaluating the examples\<close>

lemmas eval_dom =
  directRung_def iconRung_def labelRung_def sendClickScript_def directSelectors_def sendIcon_def
  button_def querySelector_def querySelectorAll_def closest_def matchesCompound_def
  getAttribute_def toLowerCase_def iconOnlyPage_def noSendPage_def composerDiv_def
  sendIconSpan_def iconButton_def hiddenButton_def hiddenButtonPage_def

lemmas eval_driver =
  simDriver_def simWorld_def initialSys_def perform_def effect_def await_def sleep_def goto_def
  press_def waitForSelector_def trySendClick_def playwrightSelectors_def

lemmas eval_chat = chat_def afterGoto_def afterWait_def afterAttempts_def afterEnter_def

lemma pair_fst: "fst x = a \<Longrightarrow> x = (a, snd x)"
  by (cases x) simp

lemma demoUrl: "buildWhatsAppUrl (phone demoRecipient) (message demoRecipient) = Inr demoUrl"
  by (simp add: demoRecipient_def demoUrl_def buildWhatsAppUrl_def encodeURIComponent_def
      eval_string)

lemma noSendPage_script: "sendClickScript noSendPage = None"
  by (simp add: eval_dom)

lemma sendAttempts_5:
  "sendAttempts env p 5 s = sendAttempts env p (Suc (Suc (Suc (Suc (Suc 0))))) s"
  by (simp add: eval_nat_numeral)

subsection \<open>The click ladder\<close>









subsection \<open>The send actuator\<close>

lemma perform_calls: "perform f c s = (r, s') \<Longrightarrow> calls s' = calls s @ [c]"
  by (auto simp: perform_def split: prod.splits)

lemma sleep_calls: "calls (sleep env ms s) = calls s @ [Sleep ms]"
  by (simp add: sleep_def effect_def)

lemma goto_calls: "goto env p url s = (r, s') \<Longrightarrow> calls s' = calls s @ [Goto p url]"
  unfolding goto_def by (rule perform_calls)

lemma press_calls: "press env p key s = (r, s') \<Longrightarrow> calls s' = calls s @ [Press p key]"
  unfolding press_def by (rule perform_calls)

lemma waitForSelector_calls:
  "waitForSelector env p sel t s = (r, s') \<Longrightarrow> calls s' = calls s @ [WaitForSelector p sel t]"
  by (auto simp: waitForSelector_def perform_def split: prod.splits wait_outcome.splits)

text \<open>What a call counts for: presses of a key and passes of the in-page ladder.\<close>

lemma locatorStrategy_counts:
  "locatorStrategy env p sels s = (b, s') \<Longrightarrow>
     count_list (calls s') (Press q k) = count_list (calls s) (Press q k) \<and>
     count_list (calls s') (Evaluate q) = count_list (calls s) (Evaluate q) \<and>
     count_list (calls s') (Sleep ms) = count_list (calls s) (Sleep ms)"
proof (induction sels arbitrary: s)
  case Nil
  then show ?case by simp
next
  case (Cons sel sels)
  then show ?case
    by (fastforce simp: perform_def split: prod.splits sum.splits bool.splits if_splits)
qed

lemma trySendClick_counts:
  assumes "trySendClick env p s = (r, s')"
  shows "count_list (calls s') (Press q k) = count_list (calls s) (Press q k) \<and>
         count_list (calls s') (Evaluate p) = count_list (calls s) (Evaluate p) + 1 \<and>
         count_list (calls s') (Sleep ms) = count_list (calls s) (Sleep ms)"
  using assms locatorStrategy_counts [where q = q and k = k and env = env and p = p and ms = ms]
    locatorStrategy_counts [where q = p and k = k and env = env and p = p and ms = ms]
  unfolding trySendClick_def perform_def effect_def
  by (fastforce split: prod.splits sum.splits option.splits)

lemma sendAttempts_exhausted:
  "sendAttempts env p n s = (Inr False, s') \<Longrightarrow>
     count_list (calls s') (Press q k) = count_list (calls s) (Press q k) \<and>
     count_list (calls s') (Evaluate p) = count_list (calls s) (Evaluate p) + n \<and>
     count_list (calls s') (Sleep 1000) = count_list (calls s) (Sleep 1000) + n"
proof (induction n arbitrary: s)
  case 0
  then show ?case by simp
next
  case (Suc n)
  from Suc.prems obtain s1 where
    t: "trySendClick env p s = (Inr False, s1)" and
    r: "sendAttempts env p n (sleep env 1000 s1) = (Inr False, s')"
    by (auto split: prod.splits sum.splits bool.splits if_splits)
  from Suc.IH [OF r] trySendClick_counts [OF t, of q k 1000] show ?case
    by (simp add: sleep_calls)
qed

text \<open>
  C2. Take a recipient whose deep link is built, whose navigation succeeds and whose
  message input appears within the 60 s bound. If none of the five attempts of the
  click ladder (each followed by a sleep of 1 s) clicks anything, and the page takes the
  key press, then \<open>sendSingle\<close> returns normally; on the way it has pressed Enter exactly
  once, has run the ladder exactly five times and has slept 1 s exactly five times.
\<close>

theorem sendSingle_enter_fallback:
  assumes url: "buildWhatsAppUrl (phone r) (message r) = Inr url"
    and nav: "goto env p url s = (Inr (), s1)"
    and loaded: "waitForSelector env p composer 60000 s1 = (Inr (), s2)"
    and exhausted: "sendAttempts env p 5 (sleep env 2000 s2) = (Inr False, s3)"
    and enter: "press env p ''Enter'' s3 = (Inr (), s4)"
  shows "sendSingle env p r s = (Inr (), sleep env 1200 s4) \<and>
         count_list (calls (sleep env 1200 s4)) (Press p ''Enter'') =
           count_list (calls s) (Press p ''Enter'') + 1 \<and>
         count_list (calls (sleep env 1200 s4)) (Evaluate p) =
           count_list (calls s) (Evaluate p) + 5 \<and>
         count_list (calls (sleep env 1200 s4)) (Sleep 1000) =
           count_list (calls s) (Sleep 1000) + 5"
proof -
  have "sendSingle env p r s = (Inr (), sleep env 1200 s4)"
    using assms by (simp add: sendSingle_def await_def)
  moreover have "count_list (calls (sleep env 1200 s4)) (Press p ''Enter'') =
           count_list (calls s) (Press p ''Enter'') + 1"
    using sendAttempts_exhausted [OF exhausted, of p "''Enter''"]
      goto_calls [OF nav] waitForSelector_calls [OF loaded] press_calls [OF enter]
    by (simp add: sleep_calls)
  moreover have "count_list (calls (sleep env 1200 s4)) (Evaluate p) =
           count_list (calls s) (Evaluate p) + 5"
    using sendAttempts_exhausted [OF exhausted, of p "''Enter''"]
      goto_calls [OF nav] waitForSelector_calls [OF loaded] press_calls [OF enter]
    by (simp add: sleep_calls)
  moreover have "count_list (calls (sleep env 1200 s4)) (Sleep 1000) =
           count_list (calls s) (Sleep 1000) + 5"
    using sendAttempts_exhausted [OF exhausted, of p "''Enter''"]
      goto_calls [OF nav] waitForSelector_calls [OF loaded] press_calls [OF enter]
    by (simp add: sleep_calls)
  ultimately show ?thesis by blast
qed

theorem sendSingle_enter_fallback_witness:
  "buildWhatsAppUrl (phone demoRecipient) (message demoRecipient) = Inr demoUrl \<and>
   goto simDriver 1 demoUrl chat = (Inr (), afterGoto) \<and>
   waitForSelector simDriver 1 composer 60000 afterGoto = (Inr (), afterWait) \<and>
   sendAttempts simDriver 1 5 (sleep simDriver 2000 afterWait) = (Inr False, afterAttempts) \<and>
   press simDriver 1 ''Enter'' afterAttempts = (Inr (), afterEnter) \<and>
   sendSingle simDriver 1 demoRecipient chat = (Inr (), sleep simDriver 1200 afterEnter) \<and>
   count_list (calls (sleep simDriver 1200 afterEnter)) (Press 1 ''Enter'') = 1"
proof -
  have nav: "goto simDriver 1 demoUrl chat = (Inr (), afterGoto)"
    unfolding afterGoto_def by (rule pair_fst) (simp add: chat_def eval_driver)
  have loaded: "waitForSelector simDriver 1 composer 60000 afterGoto = (Inr (), afterWait)"
    unfolding afterWait_def by (rule pair_fst) (simp add: eval_chat eval_driver)
  have exhausted:
    "sendAttempts simDriver 1 5 (sleep simDriver 2000 afterWait) = (Inr False, afterAttempts)"
    unfolding afterAttempts_def
    by (rule pair_fst) (simp add: eval_chat sendAttempts_5 eval_driver noSendPage_script)
  have enter: "press simDriver 1 ''Enter'' afterAttempts = (Inr (), afterEnter)"
    unfolding afterEnter_def
    by (rule pair_fst) (simp add: eval_chat sendAttempts_5 eval_driver noSendPage_script)
  have "calls chat = []"
    by (simp add: chat_def initialSys_def)
  with sendSingle_enter_fallback [OF demoUrl nav loaded exhausted enter] demoUrl nav loaded
    exhausted enter
  show ?thesis by simp
qed

subsection \<open>The batch runner\<close>

text \<open>No driver call of the sender is a callback.\<close>

lemma callbacks_perform:
  "perform f c s = (r, s') \<Longrightarrow> \<not> isCallback c \<Longrightarrow> callbacks s' = callbacks s"
  by (auto simp: callbacks_def perform_def split: prod.splits)

lemma callbacks_effect: "\<not> isCallback c \<Longrightarrow> callbacks (effect f c s) = callbacks s"
  by (simp add: callbacks_def effect_def)

lemma callbacks_sleep: "callbacks (sleep env ms s) = callbacks s"
  by (simp add: sleep_def callbacks_effect)

lemma callbacks_goto: "goto env p url s = (r, s') \<Longrightarrow> callbacks s' = callbacks s"
  unfolding goto_def by (erule callbacks_perform) simp

lemma callbacks_press: "press env p k s = (r, s') \<Longrightarrow> callbacks s' = callbacks s"
  unfolding press_def by (erule callbacks_perform) simp

lemma callbacks_closeContext: "closeContext env ctx s = (r, s') \<Longrightarrow> callbacks s' = callbacks s"
  unfolding closeContext_def by (erule callbacks_perform) simp

lemma callbacks_newPage: "newPage env ctx s = (r, s') \<Longrightarrow> callbacks s' = callbacks s"
  unfolding newPage_def by (erule callbacks_perform) simp

lemma callbacks_waitForSelector:
  "waitForSelector env p sel t s = (r, s') \<Longrightarrow> callbacks s' = callbacks s"
  by (auto simp: waitForSelector_def split: prod.splits wait_outcome.splits
      dest!: callbacks_perform)

lemma callbacks_getContext: "getContext env dir s = (r, s') \<Longrightarrow> callbacks s' = callbacks s"
  by (auto simp: getContext_def await_def split: prod.splits sum.splits dest!: callbacks_perform)

lemma callbacks_waitForReady:
  "waitForReady env p s = Some (r, s') \<Longrightarrow> callbacks s' = callbacks s"
  by (auto simp: waitForReady_def waitForSelectorNoTimeout_def callbacks_effect
      split: prod.splits sum.splits option.splits wait_outcome.splits
      dest!: callbacks_perform callbacks_goto)

lemma callbacks_locatorStrategy:
  "locatorStrategy env p sels s = (b, s') \<Longrightarrow> callbacks s' = callbacks s"
proof (induction sels arbitrary: s)
  case Nil
  then show ?case by simp
next
  case (Cons sel sels)
  obtain r1 s1 where v: "perform (d_isVisible env p sel) (IsVisible p sel) s = (r1, s1)"
    by (cases "perform (d_isVisible env p sel) (IsVisible p sel) s")
  then have d1: "callbacks s1 = callbacks s" by (rule callbacks_perform) simp
  obtain r2 s2 where c: "perform (d_click env p sel) (Click p sel) s1 = (r2, s2)"
    by (cases "perform (d_click env p sel) (Click p sel) s1")
  then have d2: "callbacks s2 = callbacks s1" by (rule callbacks_perform) simp
  from Cons.prems v c consider "s' = s2" | "locatorStrategy env p sels s2 = (b, s')"
    | "locatorStrategy env p sels s1 = (b, s')"
    by (auto split: sum.splits bool.splits if_splits)
  then show ?case
    using d1 d2 Cons.IH by cases auto
qed

lemma callbacks_trySendClick:
  assumes "trySendClick env p s = (r, s')"
  shows "callbacks s' = callbacks s"
proof -
  obtain r1 s1 where e: "perform (d_evaluate env p) (Evaluate p) s = (r1, s1)"
    by (cases "perform (d_evaluate env p) (Evaluate p) s")
  then have d1: "callbacks s1 = callbacks s" by (rule callbacks_perform) simp
  obtain b s2 where l: "locatorStrategy env p playwrightSelectors s1 = (b, s2)"
    by (cases "locatorStrategy env p playwrightSelectors s1")
  note d2 = callbacks_locatorStrategy [OF l]
  from assms e l show ?thesis
    using d1 d2 by (auto simp: trySendClick_def callbacks_effect split: sum.splits option.splits)
qed

lemma callbacks_sendAttempts:
  "sendAttempts env p n s = (r, s') \<Longrightarrow> callbacks s' = callbacks s"
proof (induction n arbitrary: s)
  case 0
  then show ?case by simp
next
  case (Suc n)
  obtain r1 s1 where t: "trySendClick env p s = (r1, s1)"
    by (cases "trySendClick env p s")
  from Suc.prems t consider "s' = s1" | "sendAttempts env p n (sleep env 1000 s1) = (r, s')"
    by (auto split: sum.splits bool.splits if_splits)
  then show ?case
    using callbacks_trySendClick [OF t] Suc.IH by cases (auto simp: callbacks_sleep)
qed

lemma callbacks_sendSingle:
  assumes "sendSingle env p r s = (res, s')"
  shows "callbacks s' = callbacks s"
proof (cases "buildWhatsAppUrl (phone r) (message r)")
  case (Inl e)
  with assms show ?thesis by (simp add: sendSingle_def)
next
  case (Inr url)
  obtain r1 s1 where g: "goto env p url s = (r1, s1)"
    by (cases "goto env p url s")
  obtain r2 s2 where w: "waitForSelector env p composer 60000 s1 = (r2, s2)"
    by (cases "waitForSelector env p composer 60000 s1")
  obtain r3 s3 where a: "sendAttempts env p 5 (sleep env 2000 s2) = (r3, s3)"
    by (cases "sendAttempts env p 5 (sleep env 2000 s2)")
  obtain r4 s4 where k: "press env p ''Enter'' s3 = (r4, s4)"
    by (cases "press env p ''Enter'' s3")
  note eqs = callbacks_goto [OF g] callbacks_waitForSelector [OF w] callbacks_sendAttempts [OF a]
    callbacks_press [OF k]
  from assms Inr g w a k show ?thesis
    using eqs
    by (auto simp: sendSingle_def await_def callbacks_sleep split: sum.splits bool.splits if_splits)
qed

lemma progressEvents_callbacks: "progressEvents (filter isCallback cs) = progressEvents cs"
proof (induction cs)
  case Nil
  then show ?case by simp
next
  case (Cons c cs)
  then show ?case by (cases c) (simp_all add: progressEvents_def)
qed

lemma progressEvents_eq:
  "callbacks s' = callbacks s \<Longrightarrow> progressEvents (calls s') = progressEvents (calls s)"
  unfolding callbacks_def by (metis progressEvents_callbacks)

lemma progressEvents_sleep [simp]:
  "progressEvents (calls (sleep env ms s)) = progressEvents (calls s)"
  by (simp add: sleep_def effect_def progressEvents_def)

lemma progressEvents_onProgress [simp]:
  "progressEvents (calls (onProgress True e s)) = progressEvents (calls s) @ [e]"
  by (simp add: onProgress_def progressEvents_def)

lemma batchLoop_events:
  "\<exists>evs. progressEvents (calls (batchLoop env p d True i rows s)) =
            progressEvents (calls s) @ evs \<and>
         map (\<lambda>e. (index e, row e)) evs = zip [i..<i + length rows] rows \<and>
         (\<forall>e\<in>set evs. ok e = (error e = None))"
proof (induction rows arbitrary: i s)
  case Nil
  then show ?case by simp
next
  case (Cons r rest)
  obtain res s1 where one: "sendSingle env p r s = (res, s1)"
    by (cases "sendSingle env p r s")
  note same = progressEvents_eq [OF callbacks_sendSingle [OF one]]
  define e where "e = (case res of
      Inr _ \<Rightarrow> \<lparr>index = i, row = r, ok = True, error = None\<rparr>
    | Inl x \<Rightarrow> \<lparr>index = i, row = r, ok = False, error = Some (errorText x)\<rparr>)"
  have step: "batchLoop env p d True i (r # rest) s =
               batchLoop env p d True (Suc i) rest (sleep env d (onProgress True e s1))"
    using one by (simp add: e_def split: sum.splits)
  from Cons.IH [of "Suc i" "sleep env d (onProgress True e s1)"] obtain evs where
    evs: "progressEvents (calls (batchLoop env p d True (Suc i) rest
            (sleep env d (onProgress True e s1)))) = (progressEvents (calls s) @ [e]) @ evs"
      "map (\<lambda>e. (index e, row e)) evs = zip [Suc i..<Suc i + length rest] rest"
      "\<forall>e\<in>set evs. ok e = (error e = None)"
    by (auto simp: same)
  have e: "index e = i" "row e = r" "ok e = (error e = None)"
    by (simp_all add: e_def split: sum.splits)
  have "[i..<i + length (r # rest)] = i # [Suc i..<Suc i + length rest]"
    by (simp add: upt_rec)
  with evs e step show ?case
    by (intro exI [of _ "e # evs"]) simp
qed

text \<open>
  C1. Once the session is set up (the context launched, the page opened and
  \<open>waitForReady\<close> returned) and a callback is given, \<open>sendBatch\<close> returns, and the events
  it has called \<open>onProgress\<close> with are exactly one per recipient, in the order of the list,
  each with the index and the row of its recipient, and each either \<open>ok\<close> without an error
  text or not \<open>ok\<close> with one. A recipient whose \<open>sendSingle\<close> throws is reported with
  \<open>ok = false\<close> and the text of the error, one whose \<open>sendSingle\<close> returns with
  \<open>ok = true\<close>, and in both cases the loop goes on with the recipients left.
\<close>

theorem sendBatch_progress:
  assumes ctx: "getContext env BATCH_SESSION_DIR s = (Inr ctx, s1)"
    and page: "newPage env ctx s1 = (Inr p, s2)"
    and ready: "waitForReady env p s2 = Some (Inr (), s3)"
  shows "(\<exists>evs r s'. sendBatch env rows True delayMs s = Some (r, s') \<and>
           progressEvents (calls s') = progressEvents (calls s) @ evs \<and>
           map (\<lambda>e. (index e, row e)) evs = zip [0..<length rows] rows \<and>
           (\<forall>e\<in>set evs. ok e = (error e = None))) \<and>
         (\<forall>d i r rest t e t1. sendSingle env p r t = (Inl e, t1) \<longrightarrow>
            batchLoop env p d True i (r # rest) t =
              batchLoop env p d True (Suc i) rest
                (sleep env d (onProgress True
                   \<lparr>index = i, row = r, ok = False, error = Some (errorText e)\<rparr> t1))) \<and>
         (\<forall>d i r rest t t1. sendSingle env p r t = (Inr (), t1) \<longrightarrow>
            batchLoop env p d True i (r # rest) t =
              batchLoop env p d True (Suc i) rest
                (sleep env d (onProgress True
                   \<lparr>index = i, row = r, ok = True, error = None\<rparr> t1)))"
proof -
  define d where "d = (case delayMs of None \<Rightarrow> 4000 | Some d \<Rightarrow> d)"
  define t where "t = batchLoop env p d True 0 rows s3"
  obtain r s' where fin: "finallyClose env ctx (Inr (), t) = (r, s')"
    by (cases "finallyClose env ctx (Inr (), t)")
  have run: "sendBatch env rows True delayMs s = Some (r, s')"
    using ctx page ready fin by (simp add: sendBatch_def d_def t_def)
  obtain rc sc where c: "closeContext env ctx t = (rc, sc)"
    by (cases "closeContext env ctx t")
  with fin have "s' = sc"
    by (auto simp: finallyClose_def split: sum.splits)
  with c have "progressEvents (calls s') = progressEvents (calls t)"
    by (simp add: progressEvents_eq [OF callbacks_closeContext])
  moreover have "progressEvents (calls s3) = progressEvents (calls s)"
    using progressEvents_eq [OF callbacks_getContext [OF ctx]]
      progressEvents_eq [OF callbacks_newPage [OF page]]
      progressEvents_eq [OF callbacks_waitForReady [OF ready]]
    by simp
  moreover from batchLoop_events [of env p d 0 rows s3] obtain evs where
    "progressEvents (calls t) = progressEvents (calls s3) @ evs"
    "map (\<lambda>e. (index e, row e)) evs = zip [0..<length rows] rows"
    "\<forall>e\<in>set evs. ok e = (error e = None)"
    by (auto simp: t_def)
  ultimately have "\<exists>evs r s'. sendBatch env rows True delayMs s = Some (r, s') \<and>
           progressEvents (calls s') = progressEvents (calls s) @ evs \<and>
           map (\<lambda>e. (index e, row e)) evs = zip [0..<length rows] rows \<and>
           (\<forall>e\<in>set evs. ok e = (error e = None))"
    using run by auto
  then show ?thesis by simp
qed

lemma brokenUrl: "buildWhatsAppUrl (phone brokenRecipient) (message brokenRecipient) = Inl URIError"
  by (simp add: brokenRecipient_def buildWhatsAppUrl_def encodeURIComponent_def uriUnescaped_def)


lemmas eval_batch =
  sendBatch_def getContext_def newPage_def waitForReady_def waitForSelectorNoTimeout_def
  finallyClose_def closeContext_def sendSingle_def onProgress_def progressEvents_def
  errorText_def URIError_def batchLaunched_def batchPaged_def batchReady_def

theorem sendBatch_progress_witness:
  "getContext simDriver BATCH_SESSION_DIR chat = (Inr 1, batchLaunched) \<and>
   newPage simDriver 1 batchLaunched = (Inr 1, batchPaged) \<and>
   waitForReady simDriver 1 batchPaged = Some (Inr (), batchReady) \<and>
   (\<exists>r s'. sendBatch simDriver [brokenRecipient, demoRecipient] True (Some 500) chat =
              Some (r, s') \<and>
            map (\<lambda>e. (index e, row e)) (progressEvents (calls s')) =
              [(0, brokenRecipient), (1, demoRecipient)]) \<and>
   map_option (\<lambda>x. progressEvents (calls (snd x)))
     (sendBatch simDriver [brokenRecipient, demoRecipient] True (Some 500) chat) =
   Some [\<lparr>index = 0, row = brokenRecipient, ok = False, error = Some ''URI malformed''\<rparr>,
         \<lparr>index = 1, row = demoRecipient, ok = True, error = None\<rparr>]"
proof -
  have ctx: "getContext simDriver BATCH_SESSION_DIR chat = (Inr 1, batchLaunched)"
    by (simp add: eval_batch chat_def eval_driver)
  have page: "newPage simDriver 1 batchLaunched = (Inr 1, batchPaged)"
    by (simp add: eval_batch chat_def eval_driver)
  have ready: "waitForReady simDriver 1 batchPaged = Some (Inr (), batchReady)"
    by (simp add: eval_batch chat_def eval_driver)
  have "progressEvents (calls chat) = []"
    by (simp add: chat_def initialSys_def progressEvents_def)
  with sendBatch_progress [OF ctx page ready, of "[brokenRecipient, demoRecipient]" "Some 500"]
  have "\<exists>r s'. sendBatch simDriver [brokenRecipient, demoRecipient] True (Some 500) chat =
              Some (r, s') \<and>
            map (\<lambda>e. (index e, row e)) (progressEvents (calls s')) =
              [(0, brokenRecipient), (1, demoRecipient)]"
    by (auto simp: upt_rec)
  moreover have "map_option (\<lambda>x. progressEvents (calls (snd x)))
     (sendBatch simDriver [brokenRecipient, demoRecipient] True (Some 500) chat) =
   Some [\<lparr>index = 0, row = brokenRecipient, ok = False, error = Some ''URI malformed''\<rparr>,
         \<lparr>index = 1, row = demoRecipient, ok = True, error = None\<rparr>]"
    by (simp add: eval_batch composer_def demoUrl brokenUrl sendAttempts_5 chat_def eval_driver
        noSendPage_script BATCH_SESSION_DIR_def)
  ultimately show ?thesis
    using ctx page ready by blast
qed

subsection \<open>The monitor's loops\<close>

lemma flagged_idem: "flagged (flagged c) = flagged c"
  by (simp add: flagged_def)

lemma onlyStops_refl: "onlyStops m s s"
  by (simp add: onlyStops_def)

lemma onlyStops_trans: "onlyStops m s s1 \<Longrightarrow> onlyStops m s1 s2 \<Longrightarrow> onlyStops m s s2"
  unfolding onlyStops_def by (auto simp: flagged_idem)

lemma onlyStops_perform:
  "perform f c s = (r, s') \<Longrightarrow> \<not> isCallback c \<Longrightarrow> onlyStops m s s'"
  by (auto simp: onlyStops_def callbacks_def perform_def split: prod.splits)

lemma onlyStops_effect: "\<not> isCallback c \<Longrightarrow> onlyStops m s (effect f c s)"
  by (simp add: onlyStops_def callbacks_def effect_def)

lemma onlyStops_sleep: "onlyStops m s (sleep env ms s)"
  by (simp add: sleep_def onlyStops_effect)

lemma onlyStops_stop: "onlyStops m s (stop env m s)"
  by (simp add: stop_def closeContext_def perform_def onlyStops_def callbacks_def flagged_def
      split: prod.splits)

lemma onlyStops_suspended: "onlyStops m s (suspended env m s)"
  by (simp add: suspended_def onlyStops_stop onlyStops_refl)

lemma onlyStops_goto: "goto env p url s = (r, s') \<Longrightarrow> onlyStops m s s'"
  unfolding goto_def by (erule onlyStops_perform) simp

lemma onlyStops_press: "press env p k s = (r, s') \<Longrightarrow> onlyStops m s s'"
  unfolding press_def by (erule onlyStops_perform) simp

lemma onlyStops_waitForSelector: "waitForSelector env p sel t s = (r, s') \<Longrightarrow> onlyStops m s s'"
  by (auto simp: waitForSelector_def split: prod.splits wait_outcome.splits
      elim: onlyStops_perform)

lemma onlyStops_locatorStrategy: "locatorStrategy env p sels s = (b, s') \<Longrightarrow> onlyStops m s s'"
proof (induction sels arbitrary: s)
  case Nil
  then show ?case by (simp add: onlyStops_refl)
next
  case (Cons sel sels)
  obtain r1 s1 where v: "perform (d_isVisible env p sel) (IsVisible p sel) s = (r1, s1)"
    by (cases "perform (d_isVisible env p sel) (IsVisible p sel) s")
  then have d1: "onlyStops m s s1" by (rule onlyStops_perform) simp
  obtain r2 s2 where c: "perform (d_click env p sel) (Click p sel) s1 = (r2, s2)"
    by (cases "perform (d_click env p sel) (Click p sel) s1")
  then have d2: "onlyStops m s1 s2" by (rule onlyStops_perform) simp
  from Cons.prems v c consider "s' = s2" | "locatorStrategy env p sels s2 = (b, s')"
    | "locatorStrategy env p sels s1 = (b, s')"
    by (auto split: sum.splits bool.splits if_splits)
  then show ?case
    using d1 d2 Cons.IH by cases (blast intro: onlyStops_trans)+
qed

lemma onlyStops_trySendClick:
  assumes "trySendClick env p s = (r, s')"
  shows "onlyStops m s s'"
proof -
  obtain r1 s1 where e: "perform (d_evaluate env p) (Evaluate p) s = (r1, s1)"
    by (cases "perform (d_evaluate env p) (Evaluate p) s")
  then have d1: "onlyStops m s s1" by (rule onlyStops_perform) simp
  obtain b s2 where l: "locatorStrategy env p playwrightSelectors s1 = (b, s2)"
    by (cases "locatorStrategy env p playwrightSelectors s1")
  note d2 = onlyStops_locatorStrategy [OF l, of m]
  have d3: "onlyStops m s1 (effect (d_elementClick env p el) (ElementClick p el) s1)" for el
    by (rule onlyStops_effect) simp
  from assms e l consider "s' = s1" | "s' = s2"
    | el where "s' = effect (d_elementClick env p el) (ElementClick p el) s1"
    by (auto simp: trySendClick_def split: sum.splits option.splits)
  then show ?thesis
    using d1 d2 d3 by cases (blast intro: onlyStops_trans)+
qed

lemma onlyStops_awaitM:
  assumes "awaitM env m f k s = (r, s')"
    and "\<And>r1 s1. f s = (r1, s1) \<Longrightarrow> onlyStops m s s1"
    and "\<And>x s1 r2 s2. k x s1 = (r2, s2) \<Longrightarrow> onlyStops m s1 s2"
  shows "onlyStops m s s'"
proof -
  obtain r1 s1 where f: "f s = (r1, s1)" by (cases "f s")
  note a = assms(2) [OF f] onlyStops_suspended [of m s1 env]
  show ?thesis
  proof (cases r1)
    case (Inl e)
    with assms(1) f have "s' = suspended env m s1" by (simp add: awaitM_def)
    with a show ?thesis by (blast intro: onlyStops_trans)
  next
    case (Inr x)
    with assms(1) f have "k x (suspended env m s1) = (r, s')" by (simp add: awaitM_def)
    from assms(3) [OF this] a show ?thesis by (blast intro: onlyStops_trans)
  qed
qed

lemma onlyStops_csvAttempts: "csvAttempts env m p n s = (r, s') \<Longrightarrow> onlyStops m s s'"
proof (induction n arbitrary: s r s')
  case 0
  then show ?case by (simp add: onlyStops_refl)
next
  case (Suc n)
  from Suc.prems have "awaitM env m (trySendClick env p)
       (\<lambda>sent s1. if sent then (Inr True, s1)
                   else csvAttempts env m p n (suspended env m (sleep env 1000 s1))) s = (r, s')"
    by simp
  then show ?case
  proof (rule onlyStops_awaitM)
    show "onlyStops m s s1" if "trySendClick env p s = (r1, s1)" for r1 s1
      using that by (rule onlyStops_trySendClick)
    show "onlyStops m s1 s2"
      if "(if x then (Inr True, s1)
           else csvAttempts env m p n (suspended env m (sleep env 1000 s1))) = (r2, s2)"
      for x s1 r2 s2
    proof (cases x)
      case True
      with that show ?thesis by (simp add: onlyStops_refl)
    next
      case False
      with that have "csvAttempts env m p n (suspended env m (sleep env 1000 s1)) = (r2, s2)"
        by simp
      from Suc.IH [OF this] onlyStops_sleep [of m s1 env 1000]
        onlyStops_suspended [of m "sleep env 1000 s1" env]
      show ?thesis by (blast intro: onlyStops_trans)
    qed
  qed
qed

lemma onlyStops_csvSend:
  assumes "csvSend env m r s = (res, s')"
  shows "onlyStops m s s'"
proof (cases "buildWhatsAppUrl (phone r) (message r)")
  case (Inl e)
  with assms show ?thesis by (simp add: csvSend_def onlyStops_refl)
next
  case (Inr url)
  let ?p = "m_page (monitors s m)"
  have tail: "onlyStops m s2 s3"
    if "(case csvAttempts env m ?p 5 (suspended env m (sleep env 2500 s2)) of
           (Inl e, s3) \<Rightarrow> (Inl e, s3)
         | (Inr True, s3) \<Rightarrow> (Inr True, s3)
         | (Inr False, s3) \<Rightarrow>
             awaitM env m (press env ?p ''Enter'') (\<lambda>_ s4. (Inr False, s4)) s3) = (r3, s3)"
    for s2 r3 s3
  proof -
    obtain ra sa where a: "csvAttempts env m ?p 5 (suspended env m (sleep env 2500 s2)) = (ra, sa)"
      by (cases "csvAttempts env m ?p 5 (suspended env m (sleep env 2500 s2))")
    have pre: "onlyStops m s2 sa"
      using onlyStops_csvAttempts [OF a] onlyStops_sleep [of m s2 env 2500]
        onlyStops_suspended [of m "sleep env 2500 s2" env]
      by (blast intro: onlyStops_trans)
    from that a consider "s3 = sa"
      | "awaitM env m (press env ?p ''Enter'') (\<lambda>_ s4. (Inr False, s4)) sa = (r3, s3)"
      by (auto split: sum.splits bool.splits if_splits)
    then show ?thesis
    proof cases
      case 1
      with pre show ?thesis by simp
    next
      case 2
      then have "onlyStops m sa s3"
        by (rule onlyStops_awaitM) (auto intro: onlyStops_press onlyStops_refl)
      with pre show ?thesis by (blast intro: onlyStops_trans)
    qed
  qed
  from assms Inr have "awaitM env m (goto env ?p url)
          (\<lambda>_. awaitM env m (waitForSelector env ?p composer 60000)
             (\<lambda>_ s2. case csvAttempts env m ?p 5 (suspended env m (sleep env 2500 s2)) of
                        (Inl e, s3) \<Rightarrow> (Inl e, s3)
                      | (Inr True, s3) \<Rightarrow> (Inr True, s3)
                      | (Inr False, s3) \<Rightarrow>
                          awaitM env m (press env ?p ''Enter'') (\<lambda>_ s4. (Inr False, s4)) s3)) s
        = (res, s')"
    by (simp add: csvSend_def Let_def)
  then show ?thesis
  proof (rule onlyStops_awaitM)
    show "onlyStops m s s1" if "goto env ?p url s = (r1, s1)" for r1 s1
      using that by (rule onlyStops_goto)
    show "onlyStops m s1 s2"
      if "awaitM env m (waitForSelector env ?p composer 60000)
             (\<lambda>_ s2. case csvAttempts env m ?p 5 (suspended env m (sleep env 2500 s2)) of
                        (Inl e, s3) \<Rightarrow> (Inl e, s3)
                      | (Inr True, s3) \<Rightarrow> (Inr True, s3)
                      | (Inr False, s3) \<Rightarrow>
                          awaitM env m (press env ?p ''Enter'') (\<lambda>_ s4. (Inr False, s4)) s3) s1
           = (r2, s2)" for x :: unit and s1 r2 s2
      using that
      by (rule onlyStops_awaitM) (auto intro: onlyStops_waitForSelector tail)
  qed
qed

lemma onlyStops_clicks:
  "onlyStops m s s' \<Longrightarrow> clicks (stats (monitors s' m)) = clicks (stats (monitors s m))"
  unfolding onlyStops_def by (auto simp: flagged_def)

lemma onlyStops_flags:
  assumes "onlyStops m s s'"
    and "stopped (monitors s m) \<longrightarrow> \<not> running (stats (monitors s m))"
  shows "stopped (monitors s' m) \<longrightarrow> \<not> running (stats (monitors s' m))"
  using assms unfolding onlyStops_def by (auto simp: flagged_def)

lemma monitors_updStats:
  "monitors (updStats m f s) m = (monitors s m)\<lparr>stats := f (stats (monitors s m))\<rparr>"
  by (simp add: updStats_def)

lemma monitors_onEvent: "monitors (onEvent given e s) = monitors s"
  by (simp add: onEvent_def)

lemma callbacks_updStats: "callbacks (updStats m f s) = callbacks s"
  by (simp add: updStats_def callbacks_def)

lemma callbacks_onEvent: "callbacks (onEvent True e s) = callbacks s @ [OnEvent e]"
  by (simp add: onEvent_def callbacks_def)

text \<open>
  C10. In the CSV mode of the monitor, whenever the \<open>try\<close> of a recipient ends without an
  exception, \<open>stats.clicks\<close> is one more than before, \<open>stats.lastClick\<close> is the time read
  then, and \<open>onEvent\<close> is called once, with \<open>clicked: true, ok: true\<close> and the new count.
  This is so whatever \<open>sent\<close> is: also when no attempt of the ladder clicked and Enter was
  pressed instead. So \<open>stats.clicks\<close> counts the recipients processed, not the clicks.
\<close>

theorem csvIteration_click_count:
  assumes "csvSend env m r
             (updStats m (\<lambda>st. st\<lparr>current := Some (Progress (i + 1) len (phone r))\<rparr>) s)
           = (Inr sent, s1)"
  shows "clicks (stats (monitors (csvIteration env m given len i r s) m)) =
           clicks (stats (monitors s m)) + 1 \<and>
         lastClick (stats (monitors (csvIteration env m given len i r s) m)) =
           Some (d_now env (world s1)) \<and>
         callbacks (csvIteration env m True len i r s) =
           callbacks s @
             [OnEvent (RowSent (d_now env (world s1)) (clicks (stats (monitors s m)) + 1) i r)]"
proof -
  let ?s0 = "updStats m (\<lambda>st. st\<lparr>current := Some (Progress (i + 1) len (phone r))\<rparr>) s"
  note o = onlyStops_csvSend [OF assms]
  have c: "clicks (stats (monitors s1 m)) = clicks (stats (monitors s m))"
    using onlyStops_clicks [OF o] by (simp add: monitors_updStats)
  have cb: "callbacks s1 = callbacks s"
    using o by (simp add: onlyStops_def callbacks_updStats)
  show ?thesis
    using assms c cb
    by (simp add: csvIteration_def Let_def monitors_onEvent monitors_updStats callbacks_onEvent
        callbacks_updStats)
qed

lemma csvLoop_stopped:
  "stopped (monitors s m) \<Longrightarrow> csvLoop env m given delayMs len i rows s = s"
  by (cases rows) (simp_all add: csvCompleted_def)

lemma csvIteration_flags:
  assumes "stopped (monitors s m) \<longrightarrow> \<not> running (stats (monitors s m))"
  shows "stopped (monitors (csvIteration env m given len i r s) m) \<longrightarrow>
         \<not> running (stats (monitors (csvIteration env m given len i r s) m))"
proof -
  let ?s0 = "updStats m (\<lambda>st. st\<lparr>current := Some (Progress (i + 1) len (phone r))\<rparr>) s"
  obtain res s1 where send: "csvSend env m r ?s0 = (res, s1)"
    by (cases "csvSend env m r ?s0")
  have "stopped (monitors ?s0 m) \<longrightarrow> \<not> running (stats (monitors ?s0 m))"
    using assms by (simp add: monitors_updStats)
  with onlyStops_flags [OF onlyStops_csvSend [OF send]]
  have "stopped (monitors s1 m) \<longrightarrow> \<not> running (stats (monitors s1 m))"
    by blast
  with send show ?thesis
    by (cases res) (simp_all add: csvIteration_def Let_def monitors_onEvent monitors_updStats)
qed

text \<open>
  C4. In the CSV mode, let the loop begin the turn of recipient \<open>k\<close> (it is not stopped),
  and let a stop have been requested by the time the \<open>try\<close> of that recipient is over,
  before the trailing sleep (\<open>stop()\<close> sets \<open>stopped\<close> and clears \<open>stats.running\<close>). Then the
  loop does nothing more: its final state is the state right after that \<open>try\<close>, with no
  trailing sleep, no later recipient and no completion event; and \<open>stats.running\<close> is
  false.
\<close>

theorem csvLoop_stop_after_recipient:
  assumes started: "\<not> stopped (monitors s m)"
    and requested: "stopped (monitors (csvIteration env m given len k r s) m)"
  shows "csvLoop env m given delayMs len k (r # rest) s = csvIteration env m given len k r s \<and>
         \<not> running (stats (monitors (csvLoop env m given delayMs len k (r # rest) s) m)) \<and>
         (\<forall>t. stopped (monitors (stop env m t) m) \<and>
              \<not> running (stats (monitors (stop env m t) m)))"
proof -
  have loop: "csvLoop env m given delayMs len k (r # rest) s = csvIteration env m given len k r s"
    using started requested by (simp add: Let_def csvLoop_stopped)
  moreover have "\<not> running (stats (monitors (csvIteration env m given len k r s) m))"
    using csvIteration_flags [of s m env given len k r] started requested by simp
  moreover have "stopped (monitors (stop env m t) m) \<and>
      \<not> running (stats (monitors (stop env m t) m))" for t
    by (simp add: stop_def closeContext_def perform_def split: prod.splits)
  ultimately show ?thesis by simp
qed

lemma watchTick_idle:
  "d_now env (world s) - l \<le> 1500 \<Longrightarrow>
   watchTick env m given l s = (l, suspended env m (sleep env 500 s))"
  by (simp add: watchTick_def)

lemma onlyStops_pause: "onlyStops m s (suspended env m (sleep env ms s))"
  using onlyStops_sleep [of m s env ms] onlyStops_suspended [of m "sleep env ms s" env]
  by (blast intro: onlyStops_trans)

lemma onlyStops_lastClick:
  "onlyStops m s s' \<Longrightarrow> lastClick (stats (monitors s' m)) = lastClick (stats (monitors s m))"
  unfolding onlyStops_def by (auto simp: flagged_def)

lemma watchLoop_watchTurns:
  "watchLoop env m given l s =
     watchLoop env m given (fst (watchTurns env m given n l s)) (snd (watchTurns env m given n l s))"
proof (induction n arbitrary: l s)
  case 0
  show ?case by simp
next
  case (Suc n)
  show ?case
  proof (cases "stopped (monitors s m)")
    case True
    then show ?thesis by simp
  next
    case False
    then have "watchLoop env m given l s =
        watchLoop env m given (fst (watchTick env m given l s)) (snd (watchTick env m given l s))"
      by (subst watchLoop.simps) simp
    also have "\<dots> = watchLoop env m given
        (fst (watchTurns env m given n (fst (watchTick env m given l s)) (snd (watchTick env m given l s))))
        (snd (watchTurns env m given n (fst (watchTick env m given l s)) (snd (watchTick env m given l s))))"
      by (rule Suc.IH)
    finally show ?thesis using False by simp
  qed
qed

lemma watchTick_after_window:
  assumes late: "1500 < d_now env (world t) - l"
    and clicked: "trySendClick env (m_page (monitors t m)) t = (Inr True, t1)"
  shows "clicks (stats (monitors (snd (watchTick env m given l t)) m)) =
           clicks (stats (monitors t m)) + 1"
proof -
  let ?s2 = "suspended env m t1"
  let ?s3 = "updStats m (\<lambda>st. st\<lparr>clicks := clicks st + 1,
                                    lastClick := Some (d_now env (world ?s2))\<rparr>) ?s2"
  let ?s4 = "onEvent given (WatchClicked (d_now env (world ?s2))
               (clicks (stats (monitors ?s3 m)))) ?s3"
  have "snd (watchTick env m given l t) = suspended env m (sleep env 500 ?s4)"
    using late clicked by (simp add: watchTick_def Let_def)
  then have "clicks (stats (monitors (snd (watchTick env m given l t)) m)) =
      clicks (stats (monitors ?s4 m))"
    by (simp add: onlyStops_clicks [OF onlyStops_pause])
  also have "\<dots> = clicks (stats (monitors ?s2 m)) + 1"
    by (simp add: monitors_onEvent monitors_updStats)
  also have "clicks (stats (monitors ?s2 m)) = clicks (stats (monitors t m))"
    using onlyStops_trySendClick [OF clicked, of m] onlyStops_suspended [of m t1 env]
    by (simp add: onlyStops_clicks)
  finally show ?thesis .
qed

text \<open>
  C5. In the watch mode, a turn of the loop runs the click ladder only when more than
  1500 ms have passed since \<open>lastClickedAt\<close>; otherwise the turn is the sleep of 500 ms
  alone. So when a turn has recorded a click (\<open>stats.clicks\<close> went up by one, at the time
  \<open>l1\<close>), more than 1500 ms had passed since the click before; and a next turn that starts
  within 1500 ms of \<open>l1\<close> runs no ladder, whatever the page shows: after both turns
  \<open>stats.clicks\<close> is up by one, not two. The window defers a click and does not drop it:
  at a turn that starts more than 1500 ms after \<open>lastClickedAt\<close> and whose ladder clicks,
  \<open>stats.clicks\<close> goes up by one.
\<close>

theorem watchTick_debounce:
  assumes first: "watchTick env m given l0 s = (l1, s1)"
    and recorded: "clicks (stats (monitors s1 m)) = clicks (stats (monitors s m)) + 1"
    and within: "d_now env (world s1) - l1 \<le> 1500"
  shows "1500 < d_now env (world s) - l0 \<and>
         lastClick (stats (monitors s1 m)) = Some l1 \<and>
         watchTick env m given l1 s1 = (l1, suspended env m (sleep env 500 s1)) \<and>
         clicks (stats (monitors (snd (watchTick env m given l1 s1)) m)) =
           clicks (stats (monitors s m)) + 1 \<and>
         (\<forall>l t. d_now env (world t) - l \<le> 1500 \<longrightarrow>
            watchTick env m given l t = (l, suspended env m (sleep env 500 t))) \<and>
         (\<forall>l t t1. 1500 < d_now env (world t) - l \<and>
            trySendClick env (m_page (monitors t m)) t = (Inr True, t1) \<longrightarrow>
            clicks (stats (monitors (snd (watchTick env m given l t)) m)) =
              clicks (stats (monitors t m)) + 1)"
proof -
  let ?p = "m_page (monitors s m)"
  obtain r sa where t: "trySendClick env ?p s = (r, sa)"
    by (cases "trySendClick env ?p s")
  have elapsed: "1500 < d_now env (world s) - l0"
  proof (rule ccontr)
    assume "\<not> 1500 < d_now env (world s) - l0"
    then have "s1 = suspended env m (sleep env 500 s)"
      using first by (simp add: watchTick_def)
    with onlyStops_clicks [OF onlyStops_pause [of m s env 500]] recorded show False
      by simp
  qed
  have clicked: "r = Inr True"
  proof (rule ccontr)
    assume "r \<noteq> Inr True"
    then have "s1 = suspended env m (sleep env 500 (suspended env m sa))"
      using first t elapsed
      by (cases r) (auto simp: watchTick_def split: bool.splits)
    then have "onlyStops m s s1"
      using onlyStops_trySendClick [OF t, of m] onlyStops_suspended [of m sa env]
        onlyStops_pause [of m "suspended env m sa" env 500]
      by (blast intro: onlyStops_trans)
    with recorded show False
      by (simp add: onlyStops_clicks)
  qed
  let ?s2 = "suspended env m sa"
  let ?s3 = "updStats m (\<lambda>st. st\<lparr>clicks := clicks st + 1,
                                    lastClick := Some (d_now env (world ?s2))\<rparr>) ?s2"
  let ?s4 = "onEvent given (WatchClicked (d_now env (world ?s2))
               (clicks (stats (monitors ?s3 m)))) ?s3"
  have l1: "l1 = d_now env (world ?s2)" and s1: "s1 = suspended env m (sleep env 500 ?s4)"
    using first t elapsed clicked by (auto simp: watchTick_def Let_def)
  have "lastClick (stats (monitors ?s4 m)) = Some l1"
    by (simp add: l1 monitors_onEvent monitors_updStats)
  with onlyStops_lastClick [OF onlyStops_pause [of m ?s4 env 500]] s1
  have last: "lastClick (stats (monitors s1 m)) = Some l1"
    by simp
  have idle: "watchTick env m given l1 s1 = (l1, suspended env m (sleep env 500 s1))"
    using within by (rule watchTick_idle)
  then have "clicks (stats (monitors (snd (watchTick env m given l1 s1)) m)) =
           clicks (stats (monitors s1 m))"
    by (simp add: onlyStops_clicks [OF onlyStops_pause])
  with elapsed last idle recorded show ?thesis
    by (simp add: watchTick_idle watchTick_after_window)
qed

subsection \<open>Runs of the monitor on the simulated browser\<close>

lemma csvAttempts_5:
  "csvAttempts env m p 5 s = csvAttempts env m p (Suc (Suc (Suc (Suc (Suc 0))))) s"
  by (simp add: eval_nat_numeral)

lemma iconOnlyPage_script: "sendClickScript iconOnlyPage = Some iconButton"
  by (simp add: eval_dom)

lemmas eval_monitor =
  monitorOpened_def startMonitorOpen_def getContext_def newPage_def MONITOR_SESSION_DIR_def
  csvSend_def csvIteration_def awaitM_def suspended_def stop_def closeContext_def updStats_def
  onEvent_def csvAttempts_5 Let_def csvLoop_stopped csvCompleted_def


theorem csvIteration_click_count_witness:
  "csvSend simDriver 0 demoRecipient
     (updStats 0 (\<lambda>st. st\<lparr>current := Some (Progress (0 + 1) 1 (phone demoRecipient))\<rparr>)
        (monitorOpened (simWorld noSendPage))) = (Inr False, enterPressed) \<and>
   clicks (stats (monitors
     (csvIteration simDriver 0 True 1 0 demoRecipient (monitorOpened (simWorld noSendPage))) 0)) = 1 \<and>
   count_list (calls
     (csvIteration simDriver 0 True 1 0 demoRecipient (monitorOpened (simWorld noSendPage))))
     (Press 1 ''Enter'') = 1"
proof -
  have send: "csvSend simDriver 0 demoRecipient
     (updStats 0 (\<lambda>st. st\<lparr>current := Some (Progress (0 + 1) 1 (phone demoRecipient))\<rparr>)
        (monitorOpened (simWorld noSendPage))) = (Inr False, enterPressed)"
    unfolding enterPressed_def
    by (rule pair_fst) (simp add: eval_monitor demoUrl eval_driver noSendPage_script)
  have "clicks (stats (monitors (monitorOpened (simWorld noSendPage)) 0)) = 0"
    by (simp add: eval_monitor eval_driver)
  with csvIteration_click_count [OF send, of True]
  have "clicks (stats (monitors
     (csvIteration simDriver 0 True 1 0 demoRecipient (monitorOpened (simWorld noSendPage))) 0)) = 1"
    by simp
  moreover have "count_list (calls
     (csvIteration simDriver 0 True 1 0 demoRecipient (monitorOpened (simWorld noSendPage))))
     (Press 1 ''Enter'') = 1"
    by (simp add: eval_monitor demoUrl eval_driver noSendPage_script)
  ultimately show ?thesis
    using send by simp
qed

theorem csvLoop_stop_after_recipient_witness:
  "\<not> stopped (monitors (monitorOpened stopSoon) 0) \<and>
   stopped (monitors (csvIteration simDriver 0 True 2 0 demoRecipient (monitorOpened stopSoon)) 0) \<and>
   csvLoop simDriver 0 True 4000 2 0 [demoRecipient, brokenRecipient] (monitorOpened stopSoon) =
     csvIteration simDriver 0 True 2 0 demoRecipient (monitorOpened stopSoon) \<and>
   \<not> running (stats (monitors
      (csvLoop simDriver 0 True 4000 2 0 [demoRecipient, brokenRecipient] (monitorOpened stopSoon)) 0)) \<and>
   callbacks (csvIteration simDriver 0 True 2 0 demoRecipient (monitorOpened stopSoon)) =
     [OnEvent (RowSent 1700000002600 1 0 demoRecipient)]"
proof -
  have started: "\<not> stopped (monitors (monitorOpened stopSoon) 0)"
    by (simp add: eval_monitor stopSoon_def eval_driver)
  have requested:
    "stopped (monitors (csvIteration simDriver 0 True 2 0 demoRecipient (monitorOpened stopSoon)) 0)"
    by (simp add: eval_monitor stopSoon_def demoUrl eval_driver iconOnlyPage_script)
  have "callbacks (csvIteration simDriver 0 True 2 0 demoRecipient (monitorOpened stopSoon)) =
     [OnEvent (RowSent 1700000002600 1 0 demoRecipient)]"
    by (simp add: callbacks_def eval_monitor stopSoon_def demoUrl eval_driver iconOnlyPage_script)
  with csvLoop_stop_after_recipient [OF started requested, of 4000 "[brokenRecipient]"]
    started requested
  show ?thesis by blast
qed

theorem watchTick_debounce_witness:
  "watchTick simDriver 0 True 0 (monitorOpened typist) = (1700000000100, firstTick) \<and>
   clicks (stats (monitors firstTick 0)) = clicks (stats (monitors (monitorOpened typist) 0)) + 1 \<and>
   d_now simDriver (world firstTick) - 1700000000100 \<le> 1500 \<and>
   document (world firstTick) = iconOnlyPage \<and>
   clicks (stats (monitors (snd (watchTick simDriver 0 True 1700000000100 firstTick)) 0)) = 1"
proof -
  have first: "watchTick simDriver 0 True 0 (monitorOpened typist) = (1700000000100, firstTick)"
    unfolding firstTick_def
    by (rule pair_fst)
      (simp add: watchTick_def eval_monitor typist_def eval_driver iconOnlyPage_script)
  have recorded: "clicks (stats (monitors firstTick 0)) =
      clicks (stats (monitors (monitorOpened typist) 0)) + 1"
    by (simp add: firstTick_def watchTick_def eval_monitor typist_def eval_driver
        iconOnlyPage_script)
  have within: "d_now simDriver (world firstTick) - 1700000000100 \<le> 1500"
    by (simp add: firstTick_def watchTick_def eval_monitor typist_def eval_driver
        iconOnlyPage_script)
  have again: "document (world firstTick) = iconOnlyPage"
    by (simp add: firstTick_def watchTick_def eval_monitor typist_def eval_driver
        iconOnlyPage_script)
  have zero: "clicks (stats (monitors (monitorOpened typist) 0)) = 0"
    by (simp add: eval_monitor eval_driver)
  from watchTick_debounce [OF first recorded within]
  have "clicks (stats (monitors (snd (watchTick simDriver 0 True 1700000000100 firstTick)) 0)) =
          clicks (stats (monitors (monitorOpened typist) 0)) + 1"
    by blast
  with zero have
    "clicks (stats (monitors (snd (watchTick simDriver 0 True 1700000000100 firstTick)) 0)) = 1"
    by simp
  with first recorded within again show ?thesis by blast
qed

lemma watchTurns_5:
  "watchTurns env m given 5 l s = watchTurns env m given (Suc (Suc (Suc (Suc (Suc 0))))) l s"
  by (simp add: eval_nat_numeral)

text \<open>
  C5, as stated, fails: a send control that appears a second time within 1.5 s of the
  first, and stays, is clicked as well, at the first turn after the window. In the
  simulated browser a person keeps typing: the control is there at the start, it is gone
  after the first click (recorded at +100 ms) and back 500 ms later, at +600 ms; the
  turns that start at +600, +1100 and +1600 ms are idle, the turn at +2100 ms clicks, and
  after five turns \<open>stats.clicks\<close> is 2.
\<close>

theorem watchLoop_second_appearance_clicked:
  "document (world (monitorOpened typist)) = iconOnlyPage \<and>
   clock (world (monitorOpened typist)) = 1700000000000 \<and>
   document (world (snd (trySendClick simDriver 1 (monitorOpened typist)))) =
     Element ''body'' [] False [] \<and>
   document (world firstTick) = iconOnlyPage \<and>
   clock (world firstTick) = 1700000000600 \<and>
   clicks (stats (monitors firstTick 0)) = 1 \<and>
   fst fiveTurns = 1700000002200 \<and>
   clicks (stats (monitors (snd fiveTurns) 0)) = 2 \<and>
   callbacks (snd fiveTurns) =
     [OnEvent (WatchClicked 1700000000100 1), OnEvent (WatchClicked 1700000002200 2)] \<and>
   watchLoop simDriver 0 True 0 (monitorOpened typist) =
     watchLoop simDriver 0 True (fst fiveTurns) (snd fiveTurns)"
proof -
  have "document (world (monitorOpened typist)) = iconOnlyPage"
    "clock (world (monitorOpened typist)) = 1700000000000"
    "document (world (snd (trySendClick simDriver 1 (monitorOpened typist)))) =
       Element ''body'' [] False []"
    by (simp_all add: eval_monitor typist_def eval_driver iconOnlyPage_script)
  moreover have "document (world firstTick) = iconOnlyPage"
    "clock (world firstTick) = 1700000000600"
    "clicks (stats (monitors firstTick 0)) = 1"
    by (simp_all add: firstTick_def watchTick_def eval_monitor typist_def eval_driver
        iconOnlyPage_script)
  moreover have "fst fiveTurns = 1700000002200"
    "clicks (stats (monitors (snd fiveTurns) 0)) = 2"
    "callbacks (snd fiveTurns) =
       [OnEvent (WatchClicked 1700000000100 1), OnEvent (WatchClicked 1700000002200 2)]"
    by (simp_all add: fiveTurns_def watchTurns_5 watchTick_def callbacks_def eval_monitor
        typist_def eval_driver iconOnlyPage_script)
  moreover have "watchLoop simDriver 0 True 0 (monitorOpened typist) =
     watchLoop simDriver 0 True (fst fiveTurns) (snd fiveTurns)"
    unfolding fiveTurns_def by (rule watchLoop_watchTurns)
  ultimately show ?thesis by blast
qed

subsection \<open>Starting a monitor\<close>

lemma monitors_waitForReady:
  "waitForReady env p s = Some (r, s') \<Longrightarrow> monitors s' = monitors s \<and> spawned s' = spawned s"
  by (auto simp: waitForReady_def waitForSelectorNoTimeout_def goto_def perform_def effect_def
      split: prod.splits sum.splits option.splits wait_outcome.splits)

lemma startMonitorOpen_closure:
  "startMonitorOpen env s = (Inr m, s1) \<Longrightarrow>
     monitors s1 m =
       \<lparr>stats = \<lparr>running = True, clicks = 0, lastClick = None, current = None\<rparr>,
        stopped = False, m_context = m_context (monitors s1 m), m_page = m_page (monitors s1 m)\<rparr>"
  by (auto simp: startMonitorOpen_def await_def getContext_def newPage_def perform_def
      split: prod.splits sum.splits)

text \<open>
  C9, as amended. \<open>startMonitor\<close> awaits \<open>waitForReady\<close> itself: once the session is
  opened, it never returns while the wait for the login does not end, and it throws what
  \<open>waitForReady\<close> throws. When \<open>waitForReady\<close> has returned, \<open>startMonitor\<close> returns the
  handle with the loop started and not awaited: the loop is among the started tasks,
  \<open>stats.running\<close> is true, \<open>stats.clicks\<close> is 0 and nothing is stopped, for every list of
  recipients and whether or not the loop ever ends.
\<close>

theorem startMonitor_returns_after_ready:
  assumes opened: "startMonitorOpen env s = (Inr m, s1)"
  shows "(startMonitor env rows delayMs given s = None \<longleftrightarrow>
            waitForReady env (m_page (monitors s1 m)) s1 = None) \<and>
         (\<forall>e s2. waitForReady env (m_page (monitors s1 m)) s1 = Some (Inl e, s2) \<longrightarrow>
            startMonitor env rows delayMs given s = Some (Inl e, s2)) \<and>
         (\<forall>s2. waitForReady env (m_page (monitors s1 m)) s1 = Some (Inr (), s2) \<longrightarrow>
            (\<exists>s'. startMonitor env rows delayMs given s = Some (Inr m, s') \<and>
                  spawned s' = spawned s1 @
                    [(m, case rows of
                           None \<Rightarrow> WatchTask given
                         | Some rs \<Rightarrow> if rs \<noteq> [] then CsvTask rs delayMs given
                                      else WatchTask given)] \<and>
                  running (stats (monitors s' m)) \<and>
                  clicks (stats (monitors s' m)) = 0 \<and>
                  \<not> stopped (monitors s' m)))"
proof -
  let ?w = "waitForReady env (m_page (monitors s1 m)) s1"
  have a: "startMonitor env rows delayMs given s = None \<longleftrightarrow> ?w = None"
    using opened
    by (auto simp: startMonitor_def startMonitorReady_def split: option.splits prod.splits sum.splits)
  have b: "startMonitor env rows delayMs given s = Some (Inl e, s2)" if "?w = Some (Inl e, s2)"
    for e s2
    using opened that by (simp add: startMonitor_def startMonitorReady_def)
  have c: "\<exists>s'. startMonitor env rows delayMs given s = Some (Inr m, s') \<and>
                  spawned s' = spawned s1 @
                    [(m, case rows of
                           None \<Rightarrow> WatchTask given
                         | Some rs \<Rightarrow> if rs \<noteq> [] then CsvTask rs delayMs given
                                      else WatchTask given)] \<and>
                  running (stats (monitors s' m)) \<and>
                  clicks (stats (monitors s' m)) = 0 \<and>
                  \<not> stopped (monitors s' m)"
    if w: "?w = Some (Inr (), s2)" for s2
  proof -
    from monitors_waitForReady [OF w] startMonitorOpen_closure [OF opened]
    have "running (stats (monitors s2 m))" "clicks (stats (monitors s2 m)) = 0"
      "\<not> stopped (monitors s2 m)" "spawned s2 = spawned s1"
      by (metis monitor.select_convs(1) stats.select_convs(1),
          metis monitor.select_convs(1) stats.select_convs(2),
          metis monitor.select_convs(2), simp)
    then show ?thesis
      using opened w by (simp add: startMonitor_def startMonitorReady_def)
  qed
  from a b c show ?thesis by blast
qed

text \<open>
  C9, as stated, fails: with an account that is not logged in, \<open>startMonitor\<close> never
  returns a handle, since the wait of \<open>waitForReady\<close> has no timeout.
\<close>

theorem startMonitor_blocks_on_login:
  "startMonitor simDriver None 4000 True (initialSys loginPending) = None"
  by (simp add: startMonitor_def startMonitorReady_def waitForReady_def
      waitForSelectorNoTimeout_def loginPending_def eval_monitor eval_driver)

theorem startMonitor_returns_after_ready_witness:
  "startMonitorOpen simDriver (initialSys (simWorld noSendPage)) =
     (Inr 0, monitorOpened (simWorld noSendPage)) \<and>
   (\<exists>s'. startMonitor simDriver (Some [demoRecipient]) 4000 True
            (initialSys (simWorld noSendPage)) = Some (Inr 0, s') \<and>
         running (stats (monitors s' 0)) \<and> clicks (stats (monitors s' 0)) = 0)"
proof -
  have opened: "startMonitorOpen simDriver (initialSys (simWorld noSendPage)) =
     (Inr 0, monitorOpened (simWorld noSendPage))"
    unfolding monitorOpened_def
    by (rule pair_fst)
      (simp add: startMonitorOpen_def getContext_def newPage_def eval_driver)
  obtain s2 where "waitForReady simDriver (m_page (monitors (monitorOpened (simWorld noSendPage)) 0))
      (monitorOpened (simWorld noSendPage)) = Some (Inr (), s2)"
    by (simp add: waitForReady_def waitForSelectorNoTimeout_def eval_monitor eval_driver)
  with startMonitor_returns_after_ready [OF opened, of "Some [demoRecipient]" 4000 True]
  have "\<exists>s'. startMonitor simDriver (Some [demoRecipient]) 4000 True
            (initialSys (simWorld noSendPage)) = Some (Inr 0, s') \<and>
         running (stats (monitors s' 0)) \<and> clicks (stats (monitors s' 0)) = 0"
    by blast
  with opened show ?thesis by blast
qed

text \<open>
  The guard of \<open>POST /api/monitor/start\<close>: with a handle registered whose \<open>stats.running\<close>
  is true, the request is answered \<open>{ ok: true, already: true }\<close> and nothing changes.
\<close>

lemma monitorStart_guard:
  "monitorHandle s = Some h \<Longrightarrow> running (stats (monitors s h)) \<Longrightarrow>
   monitorStartBegin env b s = (Responded OkAlready, s) \<and>
   monitorStart env b s = Some (OkAlready, s)"
  by (simp add: monitorStartBegin_def monitorStart_def)

lemmas eval_server =
  monitorStartBegin_def monitorStartResume_def startMonitorReady_def waitForReady_def
  waitForSelectorNoTimeout_def MonitorStartSchema_def emptyBody_def loginPending_def
  firstStart_def secondStart_def scanned_def activeMonitors_def

text \<open>
  C3. The guard reads \<open>monitorHandle\<close>, which is assigned only when \<open>startMonitor\<close> has
  returned. A second request that arrives while the first waits for the login finds it
  \<open>null\<close>: it passes the guard and opens a second session on the same directory. Both
  closures have \<open>stats.running\<close> true; after the login both handlers answer \<open>{ ok: true }\<close>,
  and two watch loops are started.
\<close>

theorem monitorStart_twice_during_login:
  "fst (monitorStartBegin simDriver emptyBody (initialSys loginPending)) = AwaitingReady 0 None 4000 \<and>
   monitorHandle firstStart = None \<and>
   fst (monitorStartBegin simDriver emptyBody firstStart) = AwaitingReady 1 None 4000 \<and>
   count_list (calls secondStart) (Launch MONITOR_SESSION_DIR) = 2 \<and>
   activeMonitors secondStart = [0, 1] \<and>
   (case monitorStartResume simDriver 0 None 4000 (scanned secondStart) of
      None \<Rightarrow> False
    | Some (r1, s1) \<Rightarrow>
        r1 = OkStarted \<and>
        (case monitorStartResume simDriver 1 None 4000 s1 of
           None \<Rightarrow> False
         | Some (r2, s2) \<Rightarrow>
             r2 = OkStarted \<and> activeMonitors s2 = [0, 1] \<and>
             spawned s2 = [(0, WatchTask True), (1, WatchTask True)]))"
  by (simp add: eval_server eval_monitor eval_driver)

end
